theory Spec2Isabelle
  imports Complex_Main
begin

section \<open>Numbers\<close>

text \<open>
  The TypeScript sources compute with the type \<open>number\<close>, the IEEE 754 binary64
  format. Two readings are used. Where a claim is about comparisons, state changes and
  the order of events, a number is read as a \<^typ>\<open>real\<close> and every operation is exact.
  Where a claim is a bound on a computed value, the rounding of each operation is made
  explicit: \<open>binary64\<close> below rounds a real to the nearest double, a tie going to the
  even significand. Neither reading has NaN or an infinity: a division by zero, which
  the source answers with one of them, is excluded by a hypothesis wherever a theorem
  divides. \<open>binary64\<close> leaves out overflow and the subnormal range; the values it is
  evaluated at below lie between 1 and \<open>2 ^ 54\<close> in magnitude. Beat indices, which the
  code only ever produces from the constant count-in length by negation and \<open>++\<close>, are
  read as \<^typ>\<open>int\<close>.

  \<open>Math.round(x)\<close> is the integer nearest to \<open>x\<close>, ties going towards plus infinity
  (ECMAScript: \<open>Math.round(2.5) = 3\<close>, \<open>Math.round(-2.5) = -2\<close>), that is
  \<open>floor (x + 1/2)\<close>; on a double this value is a double again, so the function does
  not round.
\<close>

definition Math_round :: "real \<Rightarrow> real" where
  "Math_round x = of_int \<lfloor>x + 1 / 2\<rfloor>"

text \<open>
  The rounding the specification names, written from its words to be compared with
  \<open>Math_round\<close>: round to nearest, a tie going away from zero.
\<close>

definition round_half_away_from_zero :: "real \<Rightarrow> real" where
  "round_half_away_from_zero x =
     (if 0 \<le> x then of_int \<lfloor>x + 1 / 2\<rfloor> else - of_int \<lfloor>- x + 1 / 2\<rfloor>)"

definition round_half_even :: "real \<Rightarrow> int" where
  "round_half_even x =
     (let f = \<lfloor>x\<rfloor>
      in if x - of_int f < 1 / 2 then f
         else if 1 / 2 < x - of_int f then f + 1
         else if even f then f else f + 1)"

definition binary64 :: "real \<Rightarrow> real" where
  "binary64 x =
     (if x = 0 then 0
      else
        let e = \<lfloor>log 2 \<bar>x\<bar>\<rfloor>;
            ulp = 2 powr (of_int e - 52)
        in of_int (round_half_even (x / ulp)) * ulp)"

section \<open>Timing calculations (lib/timing)\<close>

record TimingResult =
  offsetMs :: real
  nearestBeatTime :: real
  tapTime :: real

definition calculateTimingOffset :: "real \<Rightarrow> real \<Rightarrow> real \<Rightarrow> TimingResult" where
  "calculateTimingOffset tapTime' startTime' beatIntervalMs =
     (let elapsed = tapTime' - startTime';
          beatNumber = Math_round (elapsed / beatIntervalMs);
          nearestBeatTime' = startTime' + beatNumber * beatIntervalMs;
          offsetMs' = tapTime' - nearestBeatTime'
      in \<lparr>offsetMs = offsetMs', nearestBeatTime = nearestBeatTime', tapTime = tapTime'\<rparr>)"

text \<open>
  The same function with the rounding of its five arithmetic results made explicit:
  \<open>rnd\<close> is applied to the result of each subtraction, division, multiplication and
  addition, in the order the source evaluates them. With \<open>binary64\<close> for \<open>rnd\<close> this is
  the function as the engine runs it on doubles; with the identity it is
  \<open>calculateTimingOffset\<close>. \<open>roundingError\<close> adds up what the five roundings change,
  the error of the quotient weighted by the interval.
\<close>

definition calculateTimingOffset_rnd ::
  "(real \<Rightarrow> real) \<Rightarrow> real \<Rightarrow> real \<Rightarrow> real \<Rightarrow> TimingResult" where
  "calculateTimingOffset_rnd rnd tapTime' startTime' beatIntervalMs =
     (let elapsed = rnd (tapTime' - startTime');
          beatNumber = Math_round (rnd (elapsed / beatIntervalMs));
          nearestBeatTime' = rnd (startTime' + rnd (beatNumber * beatIntervalMs));
          offsetMs' = rnd (tapTime' - nearestBeatTime')
      in \<lparr>offsetMs = offsetMs', nearestBeatTime = nearestBeatTime', tapTime = tapTime'\<rparr>)"

definition roundingError :: "(real \<Rightarrow> real) \<Rightarrow> real \<Rightarrow> real \<Rightarrow> real \<Rightarrow> real" where
  "roundingError rnd t s i =
     (let elapsed = rnd (t - s);
          q = rnd (elapsed / i);
          p = rnd (Math_round q * i);
          nr = rnd (s + p)
      in \<bar>elapsed - (t - s)\<bar> + i * \<bar>q - elapsed / i\<bar> + \<bar>p - Math_round q * i\<bar>
         + \<bar>nr - (s + p)\<bar> + \<bar>rnd (t - nr) - (t - nr)\<bar>)"

definition bpmToIntervalMs :: "real \<Rightarrow> real" where
  "bpmToIntervalMs bpm' = 60000 / bpm'"

datatype rating = perfect | good | okay | miss

definition getAccuracyRating :: "real \<Rightarrow> rating \<times> string" where
  "getAccuracyRating offsetMs' =
     (let absOffset = \<bar>offsetMs'\<bar>
      in if absOffset \<le> 20 then (perfect, ''Perfect!'')
         else if absOffset \<le> 50 then (good, ''Good'')
         else if absOffset \<le> 100 then (okay, ''Okay'')
         else (miss, ''Miss''))"

definition calculateAverageOffset :: "real list \<Rightarrow> real" where
  "calculateAverageOffset offsets' =
     (if length offsets' = 0 then 0
      else foldl (\<lambda>acc val. acc + val) 0 offsets' / of_nat (length offsets'))"

section \<open>The metronome (lib/metronome)\<close>

text \<open>
  The class \<open>Metronome\<close> keeps a \<open>state\<close> object and private fields; the record below
  holds both, under the names of the source. \<open>tickInterval\<close> records whether the
  repeating timer is armed. The audio handle \<open>sound\<close> belongs to the external player:
  a request to play a click is the event \<open>PlayClick\<close>, whose failure the source
  catches and ignores. A callback invocation is an event of the run. The clock
  \<open>performance.now()\<close> is an argument of the operations that read it. \<open>start\<close> and
  \<open>tick\<close> are \<open>async\<close> in the source, to await the click. The definitions of this
  section run each of them to its end as one step; the interleaved model further below
  splits \<open>tick\<close> at its await.
\<close>

record Metronome =
  isPlaying :: bool
  bpm :: real
  startTime :: "real option"
  currentBeat :: int
  isCountingIn :: bool
  countInBeatsRemaining :: int
  tickInterval :: bool
  nextScheduledBeat :: int
  countInBeats :: int
  audioLatencyMs :: real

datatype event = PlayClick | OnCountIn int | OnCountInComplete | OnBeat int real

definition AUDIO_LOOKAHEAD_MS :: real where
  "AUDIO_LOOKAHEAD_MS = 50"

definition DEFAULT_COUNT_IN_BEATS :: int where
  "DEFAULT_COUNT_IN_BEATS = 4"

definition new_Metronome :: Metronome where
  "new_Metronome =
     \<lparr>isPlaying = False, bpm = 90, startTime = None, currentBeat = 0,
      isCountingIn = False, countInBeatsRemaining = 0, tickInterval = False,
      nextScheduledBeat = 0, countInBeats = DEFAULT_COUNT_IN_BEATS, audioLatencyMs = 0\<rparr>"

definition setAudioLatency :: "real \<Rightarrow> Metronome \<Rightarrow> Metronome" where
  "setAudioLatency latencyMs m = m\<lparr>audioLatencyMs := latencyMs\<rparr>"

definition setBpm :: "real \<Rightarrow> Metronome \<Rightarrow> Metronome" where
  "setBpm bpm' m = m\<lparr>bpm := max 40 (min 200 bpm')\<rparr>"

definition getStartTime :: "Metronome \<Rightarrow> real option" where
  "getStartTime m = startTime m"

definition getAdjustedStartTime :: "Metronome \<Rightarrow> real option" where
  "getAdjustedStartTime m =
     (case startTime m of None \<Rightarrow> None | Some st \<Rightarrow> Some (st + audioLatencyMs m))"

definition getBeatIntervalMs :: "Metronome \<Rightarrow> real" where
  "getBeatIntervalMs m = bpmToIntervalMs (bpm m)"

definition start :: "real \<Rightarrow> Metronome \<Rightarrow> event list \<times> Metronome" where
  "start now m =
     (if isPlaying m then ([], m)
      else
        let m1 = m\<lparr>isPlaying := True, currentBeat := - countInBeats m, isCountingIn := True,
                    countInBeatsRemaining := countInBeats m,
                    nextScheduledBeat := - countInBeats m\<rparr>;
            m2 = m1\<lparr>startTime := Some (now + of_int (countInBeats m1) * getBeatIntervalMs m1)\<rparr>;
            m3 = m2\<lparr>nextScheduledBeat := - countInBeats m2 + 1, tickInterval := True\<rparr>
        in ([PlayClick, OnCountIn (countInBeatsRemaining m2)], m3))"

definition stop :: "Metronome \<Rightarrow> Metronome" where
  "stop m =
     (if \<not> isPlaying m then m
      else m\<lparr>isPlaying := False, startTime := None, currentBeat := 0, isCountingIn := False,
              countInBeatsRemaining := 0, tickInterval := False\<rparr>)"

definition tick :: "real \<Rightarrow> Metronome \<Rightarrow> event list \<times> Metronome" where
  "tick now m =
     (if \<not> isPlaying m then ([], m)
      else case startTime m of
        None \<Rightarrow> ([], m)
      | Some st \<Rightarrow>
          let beatIntervalMs = getBeatIntervalMs m;
              nextBeatTime = st + of_int (nextScheduledBeat m) * beatIntervalMs
          in if now \<ge> nextBeatTime - AUDIO_LOOKAHEAD_MS then
               let m1 = m\<lparr>currentBeat := nextScheduledBeat m,
                           nextScheduledBeat := nextScheduledBeat m + 1\<rparr>
               in if currentBeat m1 < 0 then
                    let m2 = m1\<lparr>countInBeatsRemaining := \<bar>currentBeat m1\<bar>\<rparr>
                    in ([PlayClick, OnCountIn (countInBeatsRemaining m2)], m2)
                  else if isCountingIn m1 then
                    ([PlayClick, OnCountInComplete, OnBeat (currentBeat m1) nextBeatTime],
                     m1\<lparr>isCountingIn := False, countInBeatsRemaining := 0\<rparr>)
                  else ([PlayClick, OnBeat (currentBeat m1) nextBeatTime], m1)
             else ([], m))"

text \<open>
  The operations a caller can apply to a metronome, and the run of a list of them from a
  given metronome, collecting the events in order. The timer invokes \<open>tick\<close> only while
  it is armed; \<open>tick\<close> itself returns at once when the metronome is not playing, so a
  \<open>Tick\<close> on an idle metronome is harmless.
\<close>

datatype op = Start real | Tick real | Stop | SetBpm real | SetAudioLatency real

fun step :: "op \<Rightarrow> Metronome \<Rightarrow> event list \<times> Metronome" where
  "step (Start now) m = start now m"
| "step (Tick now) m = tick now m"
| "step Stop m = ([], stop m)"
| "step (SetBpm b) m = ([], setBpm b m)"
| "step (SetAudioLatency l) m = ([], setAudioLatency l m)"

fun run :: "op list \<Rightarrow> Metronome \<Rightarrow> event list \<times> Metronome" where
  "run [] m = ([], m)"
| "run (x # xs) m =
     (let (es, m') = step x m; (es', m'') = run xs m' in (es @ es', m''))"

definition reachable :: "Metronome \<Rightarrow> bool" where
  "reachable m \<longleftrightarrow> (\<exists>ops. m = snd (run ops new_Metronome))"

text \<open>
  The invariant of the metronome that the proofs below maintain along every run.
\<close>

definition inv :: "Metronome \<Rightarrow> bool" where
  "inv m \<longleftrightarrow>
     (isPlaying m \<longleftrightarrow> startTime m \<noteq> None)
   \<and> (isCountingIn m \<longleftrightarrow> currentBeat m < 0)
   \<and> (isPlaying m \<longrightarrow> nextScheduledBeat m = currentBeat m + 1)
   \<and> countInBeats m = DEFAULT_COUNT_IN_BEATS"

text \<open>
  Two concrete sessions at 60 BPM started at time 0 (so beat 0 is due at 4000): one
  after the beat of index 0 has fired, one still counting in with index -1 fired.
\<close>

definition session60 :: Metronome where
  "session60 = snd (run [SetBpm 60, Start 0, Tick 950, Tick 1950, Tick 2950, Tick 3950] new_Metronome)"

definition countIn1 :: Metronome where
  "countIn1 = snd (run [SetBpm 60, Start 0, Tick 950, Tick 1950, Tick 2950] new_Metronome)"











section \<open>The calibration overlay (CalibrationOverlay)\<close>

text \<open>
  The component \<open>CalibrationOverlay\<close> is a React function component. Its state is the
  \<open>useState\<close> cells \<open>phase\<close>, \<open>offsets\<close>, \<open>detectedLatency\<close>, \<open>lockedAverage\<close> and
  \<open>confirmationTaps\<close> and the two refs \<open>metronomeRef\<close> and \<open>previousAvgRef\<close>; the cells
  \<open>countIn\<close> and \<open>currentBeat\<close> and the animation value only feed the display and are left
  out. The record holds the cells and the refs of one render.
\<close>

datatype phase = Ready | Counting | Tapping | Locked | Done

definition CALIBRATION_BPM :: real where
  "CALIBRATION_BPM = 90"

definition STABILITY_THRESHOLD_MS :: real where
  "STABILITY_THRESHOLD_MS = 2"

definition CONFIRMATION_BEATS :: nat where
  "CONFIRMATION_BEATS = 16"

definition MIN_TAPS_BEFORE_LOCK :: nat where
  "MIN_TAPS_BEFORE_LOCK = 8"

record CalibrationOverlay =
  phase :: phase
  offsets :: "real list"
  detectedLatency :: "real option"
  lockedAverage :: "real option"
  confirmationTaps :: nat
  metronomeRef :: "Metronome option"
  previousAvgRef :: "real option"

definition mount :: CalibrationOverlay where
  "mount =
     \<lparr>phase = Ready, offsets = [], detectedLatency = None, lockedAverage = None,
      confirmationTaps = 0,
      metronomeRef = Some (setAudioLatency 0 (setBpm CALIBRATION_BPM new_Metronome)),
      previousAvgRef = None\<rparr>"

text \<open>
  The two \<open>useEffect\<close> bodies. An effect reads the state cells from the render it
  belongs to (its closure), here \<open>r\<close>, reads and writes refs in place, and queues
  updates of cells, which apply to the pending state \<open>s\<close>. The progress effect is the one
  with the dependency list \<open>[offsets, phase, lockedAverage]\<close>, the confirmation effect the
  one with \<open>[phase, confirmationTaps, lockedAverage]\<close>.
\<close>

definition progressEffect :: "CalibrationOverlay \<Rightarrow> CalibrationOverlay \<Rightarrow> CalibrationOverlay" where
  "progressEffect r s =
     (if length (offsets r) < MIN_TAPS_BEFORE_LOCK then s
      else
        let avgOffset = calculateAverageOffset (offsets r);
            prevAvg = previousAvgRef s
        in if phase r = Tapping then
             let s1 = (case prevAvg of
                         None \<Rightarrow> s
                       | Some p \<Rightarrow>
                           let drift = \<bar>avgOffset - p\<bar>
                           in if drift \<le> STABILITY_THRESHOLD_MS
                              then s\<lparr>lockedAverage := Some avgOffset, confirmationTaps := 1,
                                     phase := Locked\<rparr>
                              else s)
             in s1\<lparr>previousAvgRef := Some avgOffset\<rparr>
           else if phase r = Locked then
             let drift = \<bar>avgOffset - (case lockedAverage r of None \<Rightarrow> avgOffset | Some l \<Rightarrow> l)\<bar>
             in if drift > STABILITY_THRESHOLD_MS
                then s\<lparr>phase := Tapping, lockedAverage := None, confirmationTaps := 0,
                       previousAvgRef := Some avgOffset\<rparr>
                else s
           else s)"

definition confirmationEffect :: "CalibrationOverlay \<Rightarrow> CalibrationOverlay \<Rightarrow> CalibrationOverlay" where
  "confirmationEffect r s =
     (if phase r = Locked \<and> confirmationTaps r \<ge> CONFIRMATION_BEATS
      then s\<lparr>metronomeRef := map_option stop (metronomeRef s),
             detectedLatency :=
               Some (Math_round (case lockedAverage r of None \<Rightarrow> 0 | Some l \<Rightarrow> l)),
             phase := Done\<rparr>
      else s)"

text \<open>
  One commit of a render \<open>cur\<close> that follows the render \<open>prev\<close>: React runs, in the order
  of their declaration, the effects one of whose dependencies differs from its value in
  the previous render; both read the cells of \<open>cur\<close>, and their queued updates apply in
  order. (React compares \<open>offsets\<close> by identity; the handlers replace the array only by a
  longer one or by a fresh empty one, for which the progress effect returns at once, so
  comparing the lists gives the same runs.) When the commit has changed a cell, React
  renders again and commits again: \<open>settle\<close> repeats this until a commit changes no cell.
  Its first argument bounds the number of commits; \<open>settle_total\<close> below shows that three
  always suffice, so the bound of \<open>settle_fuel\<close> is never reached.
\<close>

definition progressDeps :: "CalibrationOverlay \<Rightarrow> real list \<times> phase \<times> real option" where
  "progressDeps r = (offsets r, phase r, lockedAverage r)"

definition confirmationDeps :: "CalibrationOverlay \<Rightarrow> phase \<times> nat \<times> real option" where
  "confirmationDeps r = (phase r, confirmationTaps r, lockedAverage r)"

definition rendered ::
  "CalibrationOverlay \<Rightarrow> phase \<times> real list \<times> real option \<times> real option \<times> nat" where
  "rendered r = (phase r, offsets r, detectedLatency r, lockedAverage r, confirmationTaps r)"

definition commit :: "CalibrationOverlay \<Rightarrow> CalibrationOverlay \<Rightarrow> CalibrationOverlay" where
  "commit prev cur =
     (let s1 = (if progressDeps cur \<noteq> progressDeps prev then progressEffect cur cur else cur);
          s2 = (if confirmationDeps cur \<noteq> confirmationDeps prev
                then confirmationEffect cur s1 else s1)
      in s2)"

fun settle :: "nat \<Rightarrow> CalibrationOverlay \<Rightarrow> CalibrationOverlay \<Rightarrow> CalibrationOverlay option" where
  "settle 0 prev cur = None"
| "settle (Suc n) prev cur =
     (let next = commit prev cur
      in if rendered next = rendered cur then Some next else settle n cur next)"

text \<open>
  The handlers. \<open>handleTap\<close> reads \<open>performance.now()\<close>, its first argument here.
  \<open>startCalibration\<close> is the handler of the start button. \<open>timerTick\<close> is one firing of
  the metronome's timer: it runs \<open>tick\<close> and passes the events to the callbacks the mount
  effect registered, of which only \<open>onCountInComplete\<close> changes a modelled cell. After
  each handler React renders and commits until the state settles: \<open>act\<close>.
\<close>

definition handleTap :: "real \<Rightarrow> CalibrationOverlay \<Rightarrow> CalibrationOverlay" where
  "handleTap tapTime' s =
     (if (phase s \<noteq> Tapping \<and> phase s \<noteq> Locked) \<or> metronomeRef s = None then s
      else case metronomeRef s of
        None \<Rightarrow> s
      | Some m \<Rightarrow>
          (case getStartTime m of
             None \<Rightarrow> s
           | Some st \<Rightarrow>
               let beatIntervalMs = bpmToIntervalMs CALIBRATION_BPM;
                   result = calculateTimingOffset tapTime' st beatIntervalMs;
                   s1 = s\<lparr>offsets := offsets s @ [offsetMs result]\<rparr>
               in if phase s = Locked
                  then s1\<lparr>confirmationTaps := confirmationTaps s1 + 1\<rparr>
                  else s1))"

definition startCalibration :: "real \<Rightarrow> CalibrationOverlay \<Rightarrow> CalibrationOverlay" where
  "startCalibration now s =
     (case metronomeRef s of
        None \<Rightarrow> s
      | Some m \<Rightarrow>
          s\<lparr>phase := Counting, offsets := [], lockedAverage := None, confirmationTaps := 0,
            previousAvgRef := None, metronomeRef := Some (snd (start now m))\<rparr>)"

definition onEvent :: "event \<Rightarrow> CalibrationOverlay \<Rightarrow> CalibrationOverlay" where
  "onEvent e s = (case e of OnCountInComplete \<Rightarrow> s\<lparr>phase := Tapping\<rparr> | _ \<Rightarrow> s)"

definition timerTick :: "real \<Rightarrow> CalibrationOverlay \<Rightarrow> CalibrationOverlay" where
  "timerTick now s =
     (case metronomeRef s of
        None \<Rightarrow> s
      | Some m \<Rightarrow>
          let (es, m') = tick now m
          in foldl (\<lambda>acc e. onEvent e acc) (s\<lparr>metronomeRef := Some m'\<rparr>) es)"

definition settle_fuel :: nat where
  "settle_fuel = 4"

datatype action = StartCalibration real | TimerTick real | Tap real

fun handler :: "action \<Rightarrow> CalibrationOverlay \<Rightarrow> CalibrationOverlay" where
  "handler (StartCalibration now) s = startCalibration now s"
| "handler (TimerTick now) s = timerTick now s"
| "handler (Tap t) s = handleTap t s"

definition act :: "action \<Rightarrow> CalibrationOverlay \<Rightarrow> CalibrationOverlay option" where
  "act a s = settle settle_fuel s (handler a s)"

fun acts :: "action list \<Rightarrow> CalibrationOverlay \<Rightarrow> CalibrationOverlay option" where
  "acts [] s = Some s"
| "acts (a # as) s = (case act a s of None \<Rightarrow> None | Some s' \<Rightarrow> acts as s')"

text \<open>
  The offset that \<open>handleTap\<close> appends for a tap at time \<open>t\<close> when the metronome's start
  time is \<open>st\<close>.
\<close>

definition tapOffset :: "real \<Rightarrow> real \<Rightarrow> real" where
  "tapOffset st t = offsetMs (calculateTimingOffset t st (bpmToIntervalMs CALIBRATION_BPM))"

text \<open>
  The predicate of the claim about the confirmation window: each offset of the list,
  appended in turn to the history, keeps the average of the whole history within the
  stability threshold of the locked average.
\<close>

fun keepsAverage :: "real \<Rightarrow> real list \<Rightarrow> real list \<Rightarrow> bool" where
  "keepsAverage L acc [] = True"
| "keepsAverage L acc (d # ds) =
     (\<bar>calculateAverageOffset (acc @ [d]) - L\<bar> \<le> STABILITY_THRESHOLD_MS
      \<and> keepsAverage L (acc @ [d]) ds)"

text \<open>
  A locked session whose locked average is the average of its own history and whose
  confirmation count is 1: the state in which every lock leaves the session.
\<close>

definition stableLocked :: "CalibrationOverlay \<Rightarrow> bool" where
  "stableLocked c \<longleftrightarrow>
     phase c = Locked \<and> lockedAverage c = Some (calculateAverageOffset (offsets c))
     \<and> confirmationTaps c = 1"

text \<open>
  A concrete session. The metronome runs at 90 BPM (an interval of 2000/3 ms) and was
  started at time 0, so beat 0 is due at 8000/3. The taps of \<open>taps8\<close> fall 40, 42,
  41, 43, 40, 44, 41 and 42 ms after beats 1 to 8; the ninth tap used below falls 41 ms
  after beat 9, the taps of \<open>confirmTaps\<close> 42 ms after beats 10 to 24.
\<close>

definition freshTapping :: CalibrationOverlay where
  "freshTapping =
     \<lparr>phase = Tapping, offsets = [], detectedLatency = None, lockedAverage = None,
      confirmationTaps = 0,
      metronomeRef = Some \<lparr>isPlaying = True, bpm = 90, startTime = Some (8000 / 3),
        currentBeat = 0, isCountingIn = False, countInBeatsRemaining = 0, tickInterval = True,
        nextScheduledBeat = 1, countInBeats = 4, audioLatencyMs = 0\<rparr>,
      previousAvgRef = None\<rparr>"

definition taps8 :: "real list" where
  "taps8 = [10000 / 3 + 40, 4000 + 42, 14000 / 3 + 41, 16000 / 3 + 43, 6000 + 40,
            20000 / 3 + 44, 22000 / 3 + 41, 8000 + 42]"

definition after8 :: CalibrationOverlay where
  "after8 = freshTapping\<lparr>offsets := [40, 42, 41, 43, 40, 44, 41, 42],
                            previousAvgRef := Some (333 / 8)\<rparr>"

definition locked9 :: CalibrationOverlay where
  "locked9 = freshTapping\<lparr>offsets := [40, 42, 41, 43, 40, 44, 41, 42, 41],
      lockedAverage := Some (374 / 9), confirmationTaps := 1, phase := Locked,
      previousAvgRef := Some (374 / 9)\<rparr>"

definition confirmTaps :: "real list" where
  "confirmTaps = map (\<lambda>k. 8000 / 3 + of_nat k * (2000 / 3) + 42) [10..<25]"

definition reverted10 :: CalibrationOverlay where
  "reverted10 = locked9\<lparr>offsets := [40, 42, 41, 43, 40, 44, 41, 42, 41, 100],
      lockedAverage := None, confirmationTaps := 0, phase := Tapping,
      previousAvgRef := Some (237 / 5)\<rparr>"

definition relocked10 :: CalibrationOverlay where
  "relocked10 = locked9\<lparr>offsets := [40, 42, 41, 43, 40, 44, 41, 42, 41, 100],
      lockedAverage := Some (237 / 5), confirmationTaps := 1, phase := Locked,
      previousAvgRef := Some (237 / 5)\<rparr>"

section \<open>Timing: theorems\<close>

lemma Math_round_nearest: "\<bar>q - Math_round q\<bar> \<le> 1 / 2"
proof -
  have lo: "of_int \<lfloor>q + 1 / 2\<rfloor> \<le> q + 1 / 2"
    by (rule of_int_floor_le)
  have hi: "q + 1 / 2 < of_int \<lfloor>q + 1 / 2\<rfloor> + 1"
    by linarith
  from lo hi show ?thesis
    unfolding Math_round_def by linarith
qed

lemma offsetMs_scaled:
  assumes "i \<noteq> 0"
  shows "offsetMs (calculateTimingOffset t s i) = i * ((t - s) / i - Math_round ((t - s) / i))"
proof -
  have "i * ((t - s) / i) = t - s"
    using assms by simp
  then show ?thesis
    by (simp add: calculateTimingOffset_def Let_def right_diff_distrib mult.commute)
qed

text \<open>
  C8. The rating of an offset depends on its absolute value alone: at most 20 is perfect,
  otherwise at most 50 is good, otherwise at most 100 is okay, and anything larger is a
  miss; so 20 is perfect, 21 is good, -100 is okay and 101 is a miss.
\<close>

theorem getAccuracyRating_thresholds:
  "fst (getAccuracyRating x) =
     (if \<bar>x\<bar> \<le> 20 then perfect else if \<bar>x\<bar> \<le> 50 then good
      else if \<bar>x\<bar> \<le> 100 then okay else miss)
   \<and> fst (getAccuracyRating 20) = perfect
   \<and> fst (getAccuracyRating 21) = good
   \<and> fst (getAccuracyRating (- 100)) = okay
   \<and> fst (getAccuracyRating 101) = miss"
  by (simp add: getAccuracyRating_def Let_def)

lemma binary64_eval:
  assumes "2 powr of_int e \<le> \<bar>x\<bar>" "\<bar>x\<bar> < 2 powr (of_int e + 1)"
  shows "binary64 x = of_int (round_half_even (x / 2 powr (of_int e - 52))) * 2 powr (of_int e - 52)"
proof -
  have "0 < 2 powr (of_int e :: real)" by simp
  with assms(1) have pos: "0 < \<bar>x\<bar>" by linarith
  then have nz: "x \<noteq> 0" by simp
  have "\<lfloor>log 2 \<bar>x\<bar>\<rfloor> = e"
    using assms pos by (simp add: floor_log_eq_powr_iff)
  then show ?thesis
    using nz by (simp add: binary64_def Let_def)
qed

lemma binary64_at_1: "binary64 9007199254740994 = 9007199254740994"
  using binary64_eval [of 53 9007199254740994] by (simp add: round_half_even_def)

lemma binary64_at_2: "binary64 (9007199254740994 / 3) = 6004799503160663 / 2"
  using binary64_eval [of 51 "9007199254740994 / 3"]
  by (simp add: round_half_even_def powr_neg_numeral)

lemma binary64_at_3: "binary64 9007199254740996 = 9007199254740996"
  using binary64_eval [of 53 9007199254740996] by (simp add: round_half_even_def)

lemma binary64_at_4: "binary64 (- 2) = - 2"
  using binary64_eval [of 1 "- 2"] by (simp add: round_half_even_def powr_neg_numeral)

lemma binary64_at_5: "binary64 3 = 3"
  using binary64_eval [of 1 3] by (simp add: round_half_even_def powr_neg_numeral)

lemma binary64_0: "binary64 0 = 0"
  by (simp add: binary64_def)

lemma Math_round_int: "\<exists>k::int. Math_round q = of_int k"
  by (auto simp: Math_round_def)

lemma Math_round_nearest_int: "\<bar>q - Math_round q\<bar> \<le> \<bar>q - of_int (k::int)\<bar>"
proof -
  let ?n = "\<lfloor>q + 1 / 2\<rfloor>"
  have lo: "of_int ?n \<le> q + 1 / 2" by (rule of_int_floor_le)
  have hi: "q + 1 / 2 < of_int ?n + 1" by linarith
  consider "k \<le> ?n - 1" | "k = ?n" | "?n + 1 \<le> k" by linarith
  then show ?thesis
  proof cases
    case 1
    then have "(of_int k :: real) \<le> of_int ?n - 1"
      by (metis of_int_le_iff of_int_diff of_int_1)
    with lo hi show ?thesis unfolding Math_round_def by linarith
  next
    case 2
    then show ?thesis by (simp add: Math_round_def)
  next
    case 3
    then have "(of_int ?n :: real) + 1 \<le> of_int k"
      by (metis of_int_le_iff of_int_add of_int_1)
    with lo hi show ?thesis unfolding Math_round_def by linarith
  qed
qed

lemma calculateTimingOffset_rnd_exact:
  "calculateTimingOffset_rnd (\<lambda>x. x) t s i = calculateTimingOffset t s i"
  by (simp add: calculateTimingOffset_rnd_def calculateTimingOffset_def)

lemma roundingError_exact: "roundingError (\<lambda>x. x) t s i = 0"
  by (simp add: roundingError_def)

lemma offset_rnd_bound:
  assumes "0 < i"
  shows "\<bar>offsetMs (calculateTimingOffset_rnd rnd t s i)\<bar> \<le> i / 2 + roundingError rnd t s i"
proof -
  define el where "el = rnd (t - s)"
  define q where "q = rnd (el / i)"
  define n where "n = Math_round q"
  define p where "p = rnd (n * i)"
  define nr where "nr = rnd (s + p)"
  define off where "off = rnd (t - nr)"
  have o: "offsetMs (calculateTimingOffset_rnd rnd t s i) = off"
    by (simp add: calculateTimingOffset_rnd_def Let_def off_def nr_def p_def n_def q_def el_def)
  have r: "roundingError rnd t s i
      = \<bar>el - (t - s)\<bar> + i * \<bar>q - el / i\<bar> + \<bar>p - n * i\<bar> + \<bar>nr - (s + p)\<bar> + \<bar>off - (t - nr)\<bar>"
    by (simp add: roundingError_def Let_def off_def nr_def p_def n_def q_def el_def)
  have "\<bar>q - n\<bar> \<le> 1 / 2"
    unfolding n_def by (rule Math_round_nearest)
  then have a: "i * \<bar>q - n\<bar> \<le> i / 2"
    using assms by (simp add: mult.commute pos_le_divide_eq [symmetric])
  have el: "el = i * (el / i)"
    using assms by simp
  have "off = i * (q - n) - i * (q - el / i) - (el - (t - s)) - (p - n * i) - (nr - (s + p))
      + (off - (t - nr))"
    using el by (simp add: algebra_simps)
  then have "\<bar>off\<bar> \<le> \<bar>i * (q - n)\<bar> + \<bar>i * (q - el / i)\<bar> + \<bar>el - (t - s)\<bar> + \<bar>p - n * i\<bar>
      + \<bar>nr - (s + p)\<bar> + \<bar>off - (t - nr)\<bar>"
    by linarith
  moreover have "\<bar>i * (q - n)\<bar> = i * \<bar>q - n\<bar>" "\<bar>i * (q - el / i)\<bar> = i * \<bar>q - el / i\<bar>"
    using assms by (simp_all add: abs_mult)
  ultimately show ?thesis
    unfolding o r using a by linarith
qed

lemma offset_exact_nearest:
  assumes "0 < i"
  shows "\<bar>offsetMs (calculateTimingOffset t s i)\<bar> \<le> \<bar>t - (s + of_int (k::int) * i)\<bar>"
proof -
  let ?q = "(t - s) / i"
  have o: "offsetMs (calculateTimingOffset t s i) = i * (?q - Math_round ?q)"
    using assms by (intro offsetMs_scaled) simp
  have "i * ?q = t - s"
    using assms by simp
  then have "t - (s + of_int k * i) = i * (?q - of_int k)"
    by (simp add: right_diff_distrib mult.commute)
  then have k: "\<bar>t - (s + of_int k * i)\<bar> = i * \<bar>?q - of_int k\<bar>"
    using assms by (simp add: abs_mult)
  have "i * \<bar>?q - Math_round ?q\<bar> \<le> i * \<bar>?q - of_int k\<bar>"
    using assms Math_round_nearest_int [of ?q k] by (intro mult_left_mono) simp_all
  then show ?thesis
    unfolding o k using assms by (simp add: abs_mult)
qed

text \<open>
  C9 says that the returned offset never exceeds half a beat interval. On doubles it
  does: for the tap time \<open>2 ^ 53 + 2\<close>, the start time 0 and the interval 3, all three
  doubles, the quotient 3002399751580331.33... rounds to 3002399751580331.5, Math.round
  takes it up to 3002399751580332, and the offset is -2, against a half interval of 1.5.
\<close>

theorem calculateTimingOffset_binary64_counterexample:
  "binary64 9007199254740994 = 9007199254740994 \<and> binary64 0 = 0 \<and> binary64 3 = 3
   \<and> offsetMs (calculateTimingOffset_rnd binary64 9007199254740994 0 3) = - 2
   \<and> \<not> \<bar>offsetMs (calculateTimingOffset_rnd binary64 9007199254740994 0 3)\<bar> \<le> 3 / 2"
proof -
  have o: "offsetMs (calculateTimingOffset_rnd binary64 9007199254740994 0 3) = - 2"
    by (simp add: calculateTimingOffset_rnd_def Let_def binary64_at_1 binary64_at_2 binary64_at_3 binary64_at_4 Math_round_def)
  show ?thesis
    by (simp add: o binary64_at_1 binary64_at_5 binary64_0)
qed

text \<open>
  C9, as the code has it. For a positive interval the offset exceeds half the interval
  by at most the rounding error of the five operations; the beat number is an integer
  within one half of the computed quotient, the nearest beat time is computed from it
  and the offset from the nearest beat time. When no operation rounds, the offset is at
  most half the interval and no beat \<open>s + k * interval\<close> is closer to the tap than the
  one chosen.
\<close>

theorem calculateTimingOffset_offset_bound:
  assumes "0 < beatIntervalMs"
  shows "\<bar>offsetMs (calculateTimingOffset_rnd rnd t s beatIntervalMs)\<bar>
       \<le> beatIntervalMs / 2 + roundingError rnd t s beatIntervalMs
   \<and> (\<exists>k::int. \<bar>rnd (rnd (t - s) / beatIntervalMs) - of_int k\<bar> \<le> 1 / 2
         \<and> nearestBeatTime (calculateTimingOffset_rnd rnd t s beatIntervalMs)
             = rnd (s + rnd (of_int k * beatIntervalMs)))
   \<and> offsetMs (calculateTimingOffset_rnd rnd t s beatIntervalMs)
       = rnd (t - nearestBeatTime (calculateTimingOffset_rnd rnd t s beatIntervalMs))
   \<and> roundingError (\<lambda>x. x) t s beatIntervalMs = 0
   \<and> calculateTimingOffset_rnd (\<lambda>x. x) t s beatIntervalMs = calculateTimingOffset t s beatIntervalMs
   \<and> \<bar>offsetMs (calculateTimingOffset t s beatIntervalMs)\<bar> \<le> beatIntervalMs / 2
   \<and> (\<forall>k::int. \<bar>offsetMs (calculateTimingOffset t s beatIntervalMs)\<bar>
         \<le> \<bar>t - (s + of_int k * beatIntervalMs)\<bar>)"
proof -
  obtain k :: int where k: "Math_round (rnd (rnd (t - s) / beatIntervalMs)) = of_int k"
    using Math_round_int by blast
  have "\<bar>rnd (rnd (t - s) / beatIntervalMs) - of_int k\<bar> \<le> 1 / 2"
    using Math_round_nearest [of "rnd (rnd (t - s) / beatIntervalMs)"] k by simp
  moreover have "nearestBeatTime (calculateTimingOffset_rnd rnd t s beatIntervalMs)
      = rnd (s + rnd (of_int k * beatIntervalMs))"
    by (simp add: calculateTimingOffset_rnd_def Let_def k)
  ultimately have beat: "\<exists>k::int. \<bar>rnd (rnd (t - s) / beatIntervalMs) - of_int k\<bar> \<le> 1 / 2
         \<and> nearestBeatTime (calculateTimingOffset_rnd rnd t s beatIntervalMs)
             = rnd (s + rnd (of_int k * beatIntervalMs))"
    by blast
  have off: "offsetMs (calculateTimingOffset_rnd rnd t s beatIntervalMs)
       = rnd (t - nearestBeatTime (calculateTimingOffset_rnd rnd t s beatIntervalMs))"
    by (simp add: calculateTimingOffset_rnd_def Let_def)
  have ex: "\<bar>offsetMs (calculateTimingOffset t s beatIntervalMs)\<bar> \<le> beatIntervalMs / 2"
    using offset_rnd_bound [OF assms, of "\<lambda>x. x" t s]
    by (simp add: calculateTimingOffset_rnd_exact roundingError_exact)
  show ?thesis
    using offset_rnd_bound [OF assms] beat off roundingError_exact
      calculateTimingOffset_rnd_exact ex offset_exact_nearest [OF assms]
    by blast
qed

theorem calculateTimingOffset_offset_bound_witness:
  "(0::real) < 3
   \<and> roundingError binary64 9007199254740994 0 3 = 1 / 2
   \<and> \<bar>offsetMs (calculateTimingOffset_rnd binary64 9007199254740994 0 3)\<bar> \<le> 3 / 2 + 1 / 2
   \<and> \<bar>offsetMs (calculateTimingOffset 9007199254740994 0 3)\<bar> \<le> 3 / 2"
proof -
  have r: "roundingError binary64 9007199254740994 0 3 = 1 / 2"
    by (simp add: roundingError_def Let_def binary64_at_1 binary64_at_2 binary64_at_3 binary64_at_4 Math_round_def)
  have p: "(0::real) < 3"
    by simp
  from calculateTimingOffset_offset_bound [OF p, of binary64 9007199254740994 0]
  have a: "\<bar>offsetMs (calculateTimingOffset_rnd binary64 9007199254740994 0 3)\<bar>
       \<le> 3 / 2 + roundingError binary64 9007199254740994 0 3"
    and b: "\<bar>offsetMs (calculateTimingOffset 9007199254740994 0 3)\<bar> \<le> 3 / 2"
    by blast+
  show ?thesis
    using a b by (simp only: r p simp_thms)
qed

section \<open>Metronome: theorems\<close>

lemma inv_new: "inv new_Metronome"
  by (simp add: inv_def new_Metronome_def DEFAULT_COUNT_IN_BEATS_def)

lemma inv_start: "inv m \<Longrightarrow> inv (snd (start now m))"
  by (simp add: inv_def start_def Let_def DEFAULT_COUNT_IN_BEATS_def)

lemma inv_stop: "inv m \<Longrightarrow> inv (stop m)"
  by (simp add: inv_def stop_def)

lemma inv_tick: "inv m \<Longrightarrow> inv (snd (tick now m))"
  by (auto simp: inv_def tick_def Let_def split: option.splits)

lemma inv_setBpm: "inv m \<Longrightarrow> inv (setBpm b m)"
  by (simp add: inv_def setBpm_def)

lemma inv_setAudioLatency: "inv m \<Longrightarrow> inv (setAudioLatency l m)"
  by (simp add: inv_def setAudioLatency_def)

lemma inv_step: "inv m \<Longrightarrow> inv (snd (step x m))"
  by (cases x) (simp_all add: inv_start inv_stop inv_tick inv_setBpm inv_setAudioLatency)

lemma snd_run_Cons: "snd (run (x # xs) m) = snd (run xs (snd (step x m)))"
  by (simp add: split_beta)

lemma fst_run_Cons: "fst (run (x # xs) m) = fst (step x m) @ fst (run xs (snd (step x m)))"
  by (simp add: split_beta)

lemma inv_run: "inv m \<Longrightarrow> inv (snd (run ops m))"
proof (induction ops arbitrary: m)
  case Nil
  then show ?case by simp
next
  case (Cons x xs)
  from Cons.prems have "inv (snd (step x m))" by (rule inv_step)
  then have "inv (snd (run xs (snd (step x m))))" by (rule Cons.IH)
  then show ?case by (simp only: snd_run_Cons)
qed

lemma reachable_inv: "reachable m \<Longrightarrow> inv m"
  unfolding reachable_def using inv_run [OF inv_new] by auto


lemma count_complete:
  assumes "inv m"
  shows "length (filter (\<lambda>e. e = OnCountInComplete) (fst (run (map Tick ts) m)))
           \<le> (if isCountingIn m then 1 else 0)"
  using assms
proof (induction ts arbitrary: m)
  case Nil
  then show ?case by simp
next
  case (Cons t ts)
  have i': "inv (snd (tick t m))" using Cons.prems by (rule inv_tick)
  note IH = Cons.IH [OF i']
  have hd: "length (filter (\<lambda>e. e = OnCountInComplete) (fst (tick t m)))
      = (if isCountingIn m \<and> \<not> isCountingIn (snd (tick t m)) then 1 else 0)"
    using Cons.prems by (auto simp: inv_def tick_def Let_def split: option.splits)
  have keep: "\<not> isCountingIn m \<Longrightarrow> \<not> isCountingIn (snd (tick t m))"
    using Cons.prems by (auto simp: inv_def tick_def Let_def split: option.splits)
  show ?case
    using IH hd keep by (auto simp: fst_run_Cons simp del: run.simps split: if_splits)
qed

lemma start_latency:
  "start now (m\<lparr>audioLatencyMs := l\<rparr>)
     = (fst (start now m), (snd (start now m))\<lparr>audioLatencyMs := l\<rparr>)"
  by (simp add: start_def Let_def getBeatIntervalMs_def)

lemma tick_latency:
  "tick now (m\<lparr>audioLatencyMs := l\<rparr>)
     = (fst (tick now m), (snd (tick now m))\<lparr>audioLatencyMs := l\<rparr>)"
  by (simp add: tick_def Let_def getBeatIntervalMs_def split: option.splits)

lemma stop_latency: "stop (m\<lparr>audioLatencyMs := l\<rparr>) = (stop m)\<lparr>audioLatencyMs := l\<rparr>"
  by (simp add: stop_def)

lemma setBpm_latency:
  "setBpm b (m\<lparr>audioLatencyMs := l\<rparr>) = (setBpm b m)\<lparr>audioLatencyMs := l\<rparr>"
  by (simp add: setBpm_def)

lemma setAudioLatency_latency:
  "setAudioLatency k (m\<lparr>audioLatencyMs := l\<rparr>) = (setAudioLatency k m)\<lparr>audioLatencyMs := k\<rparr>"
  by (simp add: setAudioLatency_def)

lemma step_latency:
  "\<exists>l'. step x (m\<lparr>audioLatencyMs := l\<rparr>) = (fst (step x m), (snd (step x m))\<lparr>audioLatencyMs := l'\<rparr>)"
proof (cases x)
  case (Start now)
  then show ?thesis using start_latency by auto
next
  case (Tick now)
  then show ?thesis using tick_latency by auto
next
  case Stop
  then show ?thesis using stop_latency by auto
next
  case (SetBpm b)
  then show ?thesis using setBpm_latency by auto
next
  case (SetAudioLatency k)
  then show ?thesis using setAudioLatency_latency by auto
qed

lemma run_latency:
  "\<exists>l'. run ops (m\<lparr>audioLatencyMs := l\<rparr>) = (fst (run ops m), (snd (run ops m))\<lparr>audioLatencyMs := l'\<rparr>)"
proof (induction ops arbitrary: m l)
  case Nil
  show ?case by auto
next
  case (Cons x xs)
  obtain l1 where s: "step x (m\<lparr>audioLatencyMs := l\<rparr>)
      = (fst (step x m), (snd (step x m))\<lparr>audioLatencyMs := l1\<rparr>)"
    using step_latency by blast
  obtain l2 where r: "run xs ((snd (step x m))\<lparr>audioLatencyMs := l1\<rparr>)
      = (fst (run xs (snd (step x m))), (snd (run xs (snd (step x m))))\<lparr>audioLatencyMs := l2\<rparr>)"
    using Cons.IH by blast
  show ?case
    by (rule exI [of _ l2]) (simp add: s r split_beta)
qed

lemmas metronome_defs = new_Metronome_def DEFAULT_COUNT_IN_BEATS_def AUDIO_LOOKAHEAD_MS_def
  setBpm_def setAudioLatency_def start_def stop_def tick_def getBeatIntervalMs_def
  bpmToIntervalMs_def getAdjustedStartTime_def Let_def

lemma session60_eq: "session60 = \<lparr>isPlaying = True, bpm = 60, startTime = Some 4000, currentBeat = 0,
      isCountingIn = False, countInBeatsRemaining = 0, tickInterval = True,
      nextScheduledBeat = 1, countInBeats = 4, audioLatencyMs = 0\<rparr>"
  by (simp add: session60_def metronome_defs)

text \<open>
  C1 says that a call of setBpm during playback leaves the beat times of the later ticks
  as they were. It does not: in the session below, at 60 BPM with beat 0 due at 4000,
  the tick at 4950 fires beat 1 for the time 5000, and after setBpm(120) the same tick
  fires beat 1 for the time 4500.
\<close>

theorem setBpm_in_flight_counterexample:
  "isPlaying session60
   \<and> fst (tick 4950 session60) = [PlayClick, OnBeat 1 5000]
   \<and> fst (tick 4950 (setBpm 120 session60)) = [PlayClick, OnBeat 1 4500]"
  by (simp add: session60_eq metronome_defs)

lemma countIn1_eq: "countIn1 = \<lparr>isPlaying = True, bpm = 60, startTime = Some 4000, currentBeat = - 1,
      isCountingIn = True, countInBeatsRemaining = 1, tickInterval = True,
      nextScheduledBeat = 0, countInBeats = 4, audioLatencyMs = 0\<rparr>"
  by (simp add: countIn1_def metronome_defs)

lemma tick_silent_iff:
  assumes "isPlaying m" "startTime m = Some st"
  shows "fst (tick now m) = []
     \<longleftrightarrow> now < st + of_int (nextScheduledBeat m) * (60000 / bpm m) - 50"
  using assms by (auto simp: metronome_defs)

lemma tick_events_same_time:
  assumes "isPlaying m" "startTime m = Some st"
    and "of_int (nextScheduledBeat m) * (60000 / bpm (setBpm b m))
       = of_int (nextScheduledBeat m) * (60000 / bpm m)"
  shows "fst (tick now (setBpm b m)) = fst (tick now m)"
proof -
  have e: "of_int (nextScheduledBeat m) * getBeatIntervalMs (m\<lparr>bpm := max 40 (min 200 b)\<rparr>)
      = of_int (nextScheduledBeat m) * getBeatIntervalMs m"
    using assms(3) by (simp add: setBpm_def getBeatIntervalMs_def bpmToIntervalMs_def)
  show ?thesis
    using assms(1,2) by (simp add: tick_def setBpm_def Let_def e)
qed

lemma setBpm_same_schedule_iff:
  assumes "isPlaying m" "startTime m = Some st" "0 < bpm m"
  shows "(\<forall>now. fst (tick now (setBpm b m)) = fst (tick now m))
     \<longleftrightarrow> (nextScheduledBeat m = 0 \<or> bpm (setBpm b m) = bpm m)"
proof
  assume same: "\<forall>now. fst (tick now (setBpm b m)) = fst (tick now m)"
  show "nextScheduledBeat m = 0 \<or> bpm (setBpm b m) = bpm m"
  proof (rule ccontr)
    assume "\<not> (nextScheduledBeat m = 0 \<or> bpm (setBpm b m) = bpm m)"
    then have n: "nextScheduledBeat m \<noteq> 0" and d: "bpm (setBpm b m) \<noteq> bpm m"
      by simp_all
    have pos: "0 < bpm (setBpm b m)"
      by (simp add: setBpm_def)
    let ?t1 = "st + of_int (nextScheduledBeat m) * (60000 / bpm (setBpm b m))"
    let ?t2 = "st + of_int (nextScheduledBeat m) * (60000 / bpm m)"
    have "60000 / bpm (setBpm b m) \<noteq> 60000 / bpm m"
      using d pos assms(3) by (simp add: field_simps)
    then have neq: "?t1 \<noteq> ?t2"
      using n by simp
    have p': "isPlaying (setBpm b m)" "startTime (setBpm b m) = Some st"
      "nextScheduledBeat (setBpm b m) = nextScheduledBeat m"
      using assms(1,2) by (simp_all add: setBpm_def)
    have s1: "fst (tick now (setBpm b m)) = [] \<longleftrightarrow> now < ?t1 - 50" for now
      using tick_silent_iff [OF p'(1,2), of now] by (simp add: p'(3))
    have s2: "fst (tick now m) = [] \<longleftrightarrow> now < ?t2 - 50" for now
      by (rule tick_silent_iff [OF assms(1,2)])
    from same have "(fst (tick (min ?t1 ?t2 - 50) (setBpm b m)) = [])
        \<longleftrightarrow> (fst (tick (min ?t1 ?t2 - 50) m) = [])"
      by simp
    then have "(min ?t1 ?t2 - 50 < ?t1 - 50) \<longleftrightarrow> (min ?t1 ?t2 - 50 < ?t2 - 50)"
      unfolding s1 s2 .
    with neq show False
      by (simp add: min_def split: if_splits)
  qed
next
  assume "nextScheduledBeat m = 0 \<or> bpm (setBpm b m) = bpm m"
  then have "of_int (nextScheduledBeat m) * (60000 / bpm (setBpm b m))
       = of_int (nextScheduledBeat m) * (60000 / bpm m)"
    by auto
  then show "\<forall>now. fst (tick now (setBpm b m)) = fst (tick now m)"
    using tick_events_same_time [OF assms(1,2)] by blast
qed

text \<open>
  C1, as the code has it. setBpm stores the value clamped to [40, 200] and changes
  nothing else: the start time and the beat indices stay. Every later tick of a playing
  metronome computes the time of the next beat from the unchanged start time and the
  interval of the new BPM, so the new value takes effect at once; a later start() uses
  it as well. The next tick behaves as without the call, at every clock value, exactly
  when the next scheduled index is 0, whose beat time is the start time itself, or the
  clamped value is the BPM the metronome already had.
\<close>

theorem setBpm_takes_effect_at_once:
  "bpm (setBpm b m) = max 40 (min 200 b)
   \<and> 40 \<le> bpm (setBpm b m) \<and> bpm (setBpm b m) \<le> 200
   \<and> setBpm b m = m\<lparr>bpm := bpm (setBpm b m)\<rparr>
   \<and> (isPlaying m \<and> startTime m = Some st \<longrightarrow>
        (if now \<ge> st + of_int (nextScheduledBeat m) * (60000 / bpm (setBpm b m)) - 50
         then currentBeat (snd (tick now (setBpm b m))) = nextScheduledBeat m
              \<and> nextScheduledBeat (snd (tick now (setBpm b m))) = nextScheduledBeat m + 1
              \<and> (0 \<le> nextScheduledBeat m \<longrightarrow>
                    OnBeat (nextScheduledBeat m)
                      (st + of_int (nextScheduledBeat m) * (60000 / bpm (setBpm b m)))
                    \<in> set (fst (tick now (setBpm b m))))
         else tick now (setBpm b m) = ([], setBpm b m)))
   \<and> (isPlaying m \<and> startTime m = Some st \<and> 0 < bpm m \<longrightarrow>
        ((\<forall>now'. fst (tick now' (setBpm b m)) = fst (tick now' m))
           \<longleftrightarrow> (nextScheduledBeat m = 0 \<or> bpm (setBpm b m) = bpm m)))
   \<and> (\<not> isPlaying m \<longrightarrow>
        startTime (snd (start now (setBpm b m)))
          = Some (now + of_int (countInBeats m) * (60000 / bpm (setBpm b m))))"
proof -
  have a: "bpm (setBpm b m) = max 40 (min 200 b)
      \<and> 40 \<le> bpm (setBpm b m) \<and> bpm (setBpm b m) \<le> 200
      \<and> setBpm b m = m\<lparr>bpm := bpm (setBpm b m)\<rparr>"
    by (simp add: setBpm_def)
  have t: "isPlaying m \<and> startTime m = Some st \<longrightarrow>
        (if now \<ge> st + of_int (nextScheduledBeat m) * (60000 / bpm (setBpm b m)) - 50
         then currentBeat (snd (tick now (setBpm b m))) = nextScheduledBeat m
              \<and> nextScheduledBeat (snd (tick now (setBpm b m))) = nextScheduledBeat m + 1
              \<and> (0 \<le> nextScheduledBeat m \<longrightarrow>
                    OnBeat (nextScheduledBeat m)
                      (st + of_int (nextScheduledBeat m) * (60000 / bpm (setBpm b m)))
                    \<in> set (fst (tick now (setBpm b m))))
         else tick now (setBpm b m) = ([], setBpm b m))"
    by (simp add: metronome_defs)
  have e: "isPlaying m \<and> startTime m = Some st \<and> 0 < bpm m \<longrightarrow>
        ((\<forall>now'. fst (tick now' (setBpm b m)) = fst (tick now' m))
           \<longleftrightarrow> (nextScheduledBeat m = 0 \<or> bpm (setBpm b m) = bpm m))"
    using setBpm_same_schedule_iff [of m st b] by blast
  have s: "\<not> isPlaying m \<longrightarrow>
        startTime (snd (start now (setBpm b m)))
          = Some (now + of_int (countInBeats m) * (60000 / bpm (setBpm b m)))"
    by (simp add: metronome_defs)
  from a t e s show ?thesis
    by (intro conjI) (erule conjE | assumption)+
qed

theorem setBpm_takes_effect_at_once_witness:
  "isPlaying session60 \<and> startTime session60 = Some 4000 \<and> 0 \<le> nextScheduledBeat session60
   \<and> 0 < bpm session60 \<and> nextScheduledBeat session60 \<noteq> 0
   \<and> bpm (setBpm 120 session60) \<noteq> bpm session60
   \<and> OnBeat 1 4500 \<in> set (fst (tick 4950 (setBpm 120 session60)))
   \<and> \<not> (\<forall>now'. fst (tick now' (setBpm 120 session60)) = fst (tick now' session60))
   \<and> isPlaying countIn1 \<and> startTime countIn1 = Some 4000 \<and> 0 < bpm countIn1
   \<and> nextScheduledBeat countIn1 = 0
   \<and> (\<forall>now'. fst (tick now' (setBpm 120 countIn1)) = fst (tick now' countIn1))
   \<and> \<not> isPlaying new_Metronome
   \<and> startTime (snd (start 7 (setBpm 120 new_Metronome))) = Some 2007"
proof -
  have s: "isPlaying session60" "startTime session60 = Some 4000"
    "0 \<le> nextScheduledBeat session60" "0 < bpm session60" "nextScheduledBeat session60 \<noteq> 0"
    "bpm (setBpm 120 session60) \<noteq> bpm session60"
    by (simp_all add: session60_eq setBpm_def)
  have c: "isPlaying countIn1" "startTime countIn1 = Some 4000" "0 < bpm countIn1"
    "nextScheduledBeat countIn1 = 0"
    by (simp_all add: countIn1_eq)
  have n: "\<not> isPlaying new_Metronome"
    by (simp add: new_Metronome_def)
  have e1: "OnBeat 1 4500 \<in> set (fst (tick 4950 (setBpm 120 session60)))"
    using setBpm_takes_effect_at_once [of 120 session60 4000 4950]
    by (simp add: session60_eq setBpm_def)
  have e2: "\<not> (\<forall>now'. fst (tick now' (setBpm 120 session60)) = fst (tick now' session60))"
    using setBpm_takes_effect_at_once [of 120 session60 4000 0] s by blast
  have e3: "\<forall>now'. fst (tick now' (setBpm 120 countIn1)) = fst (tick now' countIn1)"
    using setBpm_takes_effect_at_once [of 120 countIn1 4000 0] c by blast
  have e4: "startTime (snd (start 7 (setBpm 120 new_Metronome))) = Some 2007"
    using setBpm_takes_effect_at_once [of 120 new_Metronome 0 7] n
    by (simp add: metronome_defs)
  show ?thesis
    by (intro conjI) (fact s c n e1 e2 e3 e4)+
qed

text \<open>
  C2 says the beat number is rounded half away from zero. For a tap at 1500 against a
  start time of 4000 and an interval of 1000 the quotient is -2.5: the code rounds it to
  -2 and returns the offset -500, where rounding half away from zero gives -3 and the
  offset 500.
\<close>

theorem calculateTimingOffset_round_counterexample:
  "offsetMs (calculateTimingOffset 1500 4000 1000) = - 500
   \<and> 1500 - (4000 + round_half_away_from_zero ((1500 - 4000) / 1000) * 1000) = (500::real)"
  by (simp add: calculateTimingOffset_def Math_round_def round_half_away_from_zero_def Let_def)

text \<open>
  C2, as the code has it. For a positive interval the beat number is Math.round of
  elapsed / beatIntervalMs, which is the floor of the quotient plus one half (a tie goes
  up); the nearest beat time is the start time plus the beat number times the interval,
  and the offset is the tap time minus the nearest beat time. For a tap at or after the
  start time this rounding agrees with rounding half away from zero; for start time 0,
  interval 1000 and tap time 2500 the beat number is 3 and the offset is -500.
\<close>

theorem calculateTimingOffset_formula:
  assumes "0 < i"
  shows "nearestBeatTime (calculateTimingOffset t s i) = s + Math_round ((t - s) / i) * i
   \<and> offsetMs (calculateTimingOffset t s i) = t - (s + Math_round ((t - s) / i) * i)
   \<and> tapTime (calculateTimingOffset t s i) = t
   \<and> Math_round ((t - s) / i) = of_int \<lfloor>(t - s) / i + 1 / 2\<rfloor>
   \<and> (0 \<le> t - s \<longrightarrow>
        Math_round ((t - s) / i) = round_half_away_from_zero ((t - s) / i))
   \<and> Math_round ((2500 - 0) / 1000) = 3
   \<and> nearestBeatTime (calculateTimingOffset 2500 0 1000) = 3000
   \<and> offsetMs (calculateTimingOffset 2500 0 1000) = - 500"
  using assms
  by (simp add: calculateTimingOffset_def Math_round_def round_half_away_from_zero_def Let_def)

theorem calculateTimingOffset_formula_witness:
  "(0::real) < 1000 \<and> (0::real) \<le> 2500 - 0
   \<and> Math_round ((2500 - 0) / 1000) = round_half_away_from_zero ((2500 - 0) / 1000)
   \<and> offsetMs (calculateTimingOffset 2500 0 1000) = 2500 - (0 + Math_round ((2500 - 0) / 1000) * 1000)"
proof -
  have p: "(0::real) < 1000"
    by simp
  show ?thesis
    using calculateTimingOffset_formula [OF p, of 2500 0] by simp
qed



text \<open>
  C4. Two runs of the same operations from metronomes that differ only in the value
  given to setAudioLatency emit the same events and end in states that differ at most
  in the stored latency; in particular a tick emits the same events. With a start time
  st, getAdjustedStartTime returns st plus the stored latency, st + 80 for a latency of
  80.
\<close>

theorem audioLatency_noninterference:
  "fst (run ops (setAudioLatency l1 m)) = fst (run ops (setAudioLatency l2 m))
   \<and> (snd (run ops (setAudioLatency l1 m)))\<lparr>audioLatencyMs := x\<rparr>
       = (snd (run ops (setAudioLatency l2 m)))\<lparr>audioLatencyMs := x\<rparr>
   \<and> fst (tick now (setAudioLatency l1 m)) = fst (tick now (setAudioLatency l2 m))
   \<and> getAdjustedStartTime (setAudioLatency l (m\<lparr>startTime := Some st\<rparr>)) = Some (st + l)
   \<and> getAdjustedStartTime (setAudioLatency 80 (m\<lparr>startTime := Some st\<rparr>)) = Some (st + 80)"
proof -
  obtain k1 where r1: "run ops (m\<lparr>audioLatencyMs := l1\<rparr>)
      = (fst (run ops m), (snd (run ops m))\<lparr>audioLatencyMs := k1\<rparr>)"
    using run_latency by blast
  obtain k2 where r2: "run ops (m\<lparr>audioLatencyMs := l2\<rparr>)
      = (fst (run ops m), (snd (run ops m))\<lparr>audioLatencyMs := k2\<rparr>)"
    using run_latency by blast
  show ?thesis
    by (simp add: setAudioLatency_def r1 r2 tick_latency getAdjustedStartTime_def)
qed

text \<open>
  C10. In every reachable state getAdjustedStartTime returns null exactly when the
  metronome is not playing, which is exactly when startTime is null: so it is null on a
  new metronome and after stop(), and a number while the metronome plays.
\<close>

theorem getAdjustedStartTime_null_iff_idle:
  assumes "reachable m"
  shows "(getAdjustedStartTime m = None \<longleftrightarrow> \<not> isPlaying m)
   \<and> (getAdjustedStartTime m = None \<longleftrightarrow> startTime m = None)
   \<and> getAdjustedStartTime (stop m) = None
   \<and> getAdjustedStartTime new_Metronome = None"
  using reachable_inv [OF assms]
  by (auto simp: inv_def getAdjustedStartTime_def stop_def new_Metronome_def split: option.splits)

lemma reachable_run: "reachable (snd (run ops new_Metronome))"
  unfolding reachable_def by blast

theorem getAdjustedStartTime_null_iff_idle_witness:
  "reachable session60 \<and> getAdjustedStartTime session60 = Some 4000 \<and> isPlaying session60
   \<and> getAdjustedStartTime (stop session60) = None"
proof -
  have r: "reachable session60"
    unfolding session60_def by (rule reachable_run)
  show ?thesis
    using r getAdjustedStartTime_null_iff_idle [OF r]
    by (simp add: session60_eq getAdjustedStartTime_def)
qed


























section \<open>Calibration: theorems\<close>

lemmas calib_consts = STABILITY_THRESHOLD_MS_def CONFIRMATION_BEATS_def MIN_TAPS_BEFORE_LOCK_def

lemmas commit_defs = commit_def progressEffect_def confirmationEffect_def progressDeps_def
  confirmationDeps_def rendered_def Let_def

lemma settle_4: "settle settle_fuel prev cur = settle (Suc (Suc (Suc (Suc 0)))) prev cur"
  by (simp add: settle_fuel_def eval_nat_numeral)

lemma handleTap_Tapping:
  assumes "metronomeRef s = Some m" "startTime m = Some st" "phase s = Tapping"
  shows "handleTap t s = s\<lparr>offsets := offsets s @ [tapOffset st t]\<rparr>"
  using assms by (simp add: handleTap_def getStartTime_def tapOffset_def Let_def)

lemma handleTap_Locked:
  assumes "metronomeRef s = Some m" "startTime m = Some st" "phase s = Locked"
  shows "handleTap t s = s\<lparr>offsets := offsets s @ [tapOffset st t],
                             confirmationTaps := confirmationTaps s + 1\<rparr>"
  using assms by (simp add: handleTap_def getStartTime_def tapOffset_def Let_def)

lemma handleTap_ignored:
  assumes "phase s \<noteq> Tapping" "phase s \<noteq> Locked"
  shows "handleTap t s = s"
  using assms by (simp add: handleTap_def split: option.splits)

lemma settle_same: "settle (Suc n) s s = Some s"
  by (simp add: commit_defs)

lemma tap_ignored:
  assumes "phase s \<noteq> Tapping" "phase s \<noteq> Locked"
  shows "act (Tap t) s = Some s"
  using assms by (simp add: act_def settle_4 handleTap_ignored settle_same del: settle.simps)

lemma tap_Tapping_few:
  assumes "metronomeRef s = Some m" "startTime m = Some st" "phase s = Tapping"
    and "length (offsets s) + 1 < MIN_TAPS_BEFORE_LOCK"
  shows "act (Tap t) s = Some (s\<lparr>offsets := offsets s @ [tapOffset st t]\<rparr>)"
  using assms(3,4)
  by (simp add: act_def settle_4 handleTap_Tapping [OF assms(1-3)] commit_defs)

lemma tap_Tapping_first:
  assumes "metronomeRef s = Some m" "startTime m = Some st" "phase s = Tapping"
    and "MIN_TAPS_BEFORE_LOCK \<le> length (offsets s) + 1" "previousAvgRef s = None"
  shows "act (Tap t) s =
     Some (s\<lparr>offsets := offsets s @ [tapOffset st t],
             previousAvgRef := Some (calculateAverageOffset (offsets s @ [tapOffset st t]))\<rparr>)"
  using assms(3-)
  by (simp add: act_def settle_4 handleTap_Tapping [OF assms(1-3)] commit_defs)

lemma tap_Tapping_unstable:
  assumes "metronomeRef s = Some m" "startTime m = Some st" "phase s = Tapping"
    and "MIN_TAPS_BEFORE_LOCK \<le> length (offsets s) + 1" "previousAvgRef s = Some p"
    and "\<not> \<bar>calculateAverageOffset (offsets s @ [tapOffset st t]) - p\<bar> \<le> STABILITY_THRESHOLD_MS"
  shows "act (Tap t) s =
     Some (s\<lparr>offsets := offsets s @ [tapOffset st t],
             previousAvgRef := Some (calculateAverageOffset (offsets s @ [tapOffset st t]))\<rparr>)"
  using assms(3-)
  by (simp add: act_def settle_4 handleTap_Tapping [OF assms(1-3)] commit_defs)

lemma tap_Tapping_lock:
  assumes "metronomeRef s = Some m" "startTime m = Some st" "phase s = Tapping"
    and "MIN_TAPS_BEFORE_LOCK \<le> length (offsets s) + 1" "previousAvgRef s = Some p"
    and "\<bar>calculateAverageOffset (offsets s @ [tapOffset st t]) - p\<bar> \<le> STABILITY_THRESHOLD_MS"
  shows "act (Tap t) s =
     Some (s\<lparr>offsets := offsets s @ [tapOffset st t],
             lockedAverage := Some (calculateAverageOffset (offsets s @ [tapOffset st t])),
             confirmationTaps := 1, phase := Locked,
             previousAvgRef := Some (calculateAverageOffset (offsets s @ [tapOffset st t]))\<rparr>)"
  using assms(3-)
  by (simp add: act_def settle_4 handleTap_Tapping [OF assms(1-3)] commit_defs calib_consts)

lemma progressEffect_Locked_keep:
  assumes "phase r = Locked" "lockedAverage r = Some L"
    and "\<bar>calculateAverageOffset (offsets r) - L\<bar> \<le> STABILITY_THRESHOLD_MS"
  shows "progressEffect r s = s"
  using assms by (simp add: progressEffect_def Let_def)

lemma progressEffect_idle:
  assumes "phase r \<noteq> Tapping" "phase r \<noteq> Locked"
  shows "progressEffect r s = s"
  using assms by (simp add: progressEffect_def Let_def)

lemma confirmationEffect_idle:
  assumes "phase r \<noteq> Locked \<or> confirmationTaps r < CONFIRMATION_BEATS"
  shows "confirmationEffect r s = s"
  using assms by (auto simp: confirmationEffect_def)

lemma confirmationEffect_done:
  assumes "phase r = Locked" "CONFIRMATION_BEATS \<le> confirmationTaps r"
    and "lockedAverage r = Some L"
  shows "confirmationEffect r s =
     s\<lparr>metronomeRef := map_option stop (metronomeRef s),
       detectedLatency := Some (Math_round L), phase := Done\<rparr>"
  using assms by (simp add: confirmationEffect_def)

lemma commit_idle:
  assumes "phase cur \<noteq> Tapping" "phase cur \<noteq> Locked"
  shows "commit prev cur = cur"
  by (simp only: commit_def Let_def progressEffect_idle [OF assms]
      confirmationEffect_idle [OF disjI1 [OF assms(2)]] if_cancel)

lemma commit_Locked_keep:
  assumes "phase cur = Locked" "lockedAverage cur = Some L"
    and "\<bar>calculateAverageOffset (offsets cur) - L\<bar> \<le> STABILITY_THRESHOLD_MS"
    and "confirmationTaps cur < CONFIRMATION_BEATS"
  shows "commit prev cur = cur"
  by (simp only: commit_def Let_def progressEffect_Locked_keep [OF assms(1-3)]
      confirmationEffect_idle [OF disjI2 [OF assms(4)]] if_cancel)

lemma commit_Locked_done:
  assumes "phase cur = Locked" "lockedAverage cur = Some L"
    and "\<bar>calculateAverageOffset (offsets cur) - L\<bar> \<le> STABILITY_THRESHOLD_MS"
    and "CONFIRMATION_BEATS \<le> confirmationTaps cur"
    and "confirmationTaps cur \<noteq> confirmationTaps prev"
  shows "commit prev cur =
     cur\<lparr>metronomeRef := map_option stop (metronomeRef cur),
       detectedLatency := Some (Math_round L), phase := Done\<rparr>"
proof -
  have d: "confirmationDeps cur \<noteq> confirmationDeps prev"
    using assms(5) by (simp add: confirmationDeps_def)
  show ?thesis
    by (simp add: commit_def progressEffect_Locked_keep [OF assms(1-3)]
        confirmationEffect_done [OF assms(1,4,2)] d)
qed

lemma settle_stable:
  assumes "commit prev cur = cur"
  shows "settle (Suc n) prev cur = Some cur"
  by (simp add: assms)

lemma settle_next:
  assumes "commit prev cur = next" "phase next \<noteq> phase cur"
  shows "settle (Suc n) prev cur = settle n cur next"
  using assms by (auto simp: rendered_def)

lemma tap_Locked_keep:
  assumes "metronomeRef s = Some m" "startTime m = Some st" "phase s = Locked"
    and "lockedAverage s = Some L"
    and "\<bar>calculateAverageOffset (offsets s @ [tapOffset st t]) - L\<bar> \<le> STABILITY_THRESHOLD_MS"
    and "confirmationTaps s + 1 < CONFIRMATION_BEATS"
  shows "act (Tap t) s =
     Some (s\<lparr>offsets := offsets s @ [tapOffset st t],
             confirmationTaps := confirmationTaps s + 1\<rparr>)"
proof -
  let ?h = "s\<lparr>offsets := offsets s @ [tapOffset st t],
             confirmationTaps := confirmationTaps s + 1\<rparr>"
  have h: "handleTap t s = ?h"
    by (rule handleTap_Locked [OF assms(1-3)])
  have c: "commit s ?h = ?h"
    by (rule commit_Locked_keep [where L = L]) (use assms in simp_all)
  show ?thesis
    unfolding act_def settle_4 handler.simps h by (rule settle_stable [OF c])
qed

lemma tap_Locked_done:
  assumes "metronomeRef s = Some m" "startTime m = Some st" "phase s = Locked"
    and "lockedAverage s = Some L"
    and "\<bar>calculateAverageOffset (offsets s @ [tapOffset st t]) - L\<bar> \<le> STABILITY_THRESHOLD_MS"
    and "CONFIRMATION_BEATS \<le> confirmationTaps s + 1"
  shows "act (Tap t) s =
     Some (s\<lparr>offsets := offsets s @ [tapOffset st t],
             confirmationTaps := confirmationTaps s + 1,
             metronomeRef := Some (stop m),
             detectedLatency := Some (Math_round L), phase := Done\<rparr>)"
proof -
  let ?h = "s\<lparr>offsets := offsets s @ [tapOffset st t],
             confirmationTaps := confirmationTaps s + 1\<rparr>"
  let ?d = "s\<lparr>offsets := offsets s @ [tapOffset st t],
             confirmationTaps := confirmationTaps s + 1,
             metronomeRef := Some (stop m),
             detectedLatency := Some (Math_round L), phase := Done\<rparr>"
  have h: "handleTap t s = ?h"
    by (rule handleTap_Locked [OF assms(1-3)])
  have "commit s ?h = ?h\<lparr>metronomeRef := map_option stop (metronomeRef ?h),
       detectedLatency := Some (Math_round L), phase := Done\<rparr>"
    by (rule commit_Locked_done) (use assms in simp_all)
  then have c1: "commit s ?h = ?d"
    using assms(1) by simp
  have c2: "commit ?h ?d = ?d"
    by (rule commit_idle) simp_all
  have "settle (Suc (Suc (Suc (Suc 0)))) s ?h = settle (Suc (Suc (Suc 0))) ?h ?d"
    by (rule settle_next [OF c1]) (use assms(3) in simp)
  also have "\<dots> = Some ?d"
    by (rule settle_stable [OF c2])
  finally show ?thesis
    unfolding act_def settle_4 handler.simps h .
qed

lemmas calib_defs = act_def settle_fuel_def handleTap_def startCalibration_def timerTick_def
  onEvent_def commit_defs calib_consts CALIBRATION_BPM_def getStartTime_def
  calculateAverageOffset_def calculateTimingOffset_def Math_round_def mount_def

lemma fresh_session:
  "acts [StartCalibration 0, TimerTick 650, TimerTick 1300, TimerTick 1950, TimerTick 2620] mount
     = Some freshTapping"
  by (simp add: freshTapping_def calib_defs metronome_defs eval_nat_numeral)

lemma tapOffset_small:
  assumes "\<bar>d\<bar> < 1000 / 3"
  shows "tapOffset st (st + of_int k * (2000 / 3) + d) = d"
proof -
  have "\<lfloor>(of_int k * (2000 / 3) + d) / (2000 / 3) + 1 / 2\<rfloor> = k"
    using assms by (intro floor_unique) (simp_all add: field_simps abs_less_iff)
  then show ?thesis
    by (simp add: tapOffset_def calculateTimingOffset_def Math_round_def Let_def
        bpmToIntervalMs_def CALIBRATION_BPM_def)
qed

lemma eight_taps: "acts (map Tap taps8) freshTapping = Some after8"
  by (simp add: freshTapping_def taps8_def after8_def calib_defs bpmToIntervalMs_def eval_nat_numeral)

lemma ninth_tap: "act (Tap (26000 / 3 + 41)) after8 = Some locked9"
  by (simp add: freshTapping_def locked9_def after8_def calib_defs bpmToIntervalMs_def eval_nat_numeral)

lemma drift_tap:
  "act (Tap (28000 / 3 + 100)) locked9 =
     Some (locked9\<lparr>offsets := offsets locked9 @ [100], lockedAverage := Some (237 / 5),
       previousAvgRef := Some (237 / 5)\<rparr>)"
  by (simp add: freshTapping_def locked9_def calib_defs bpmToIntervalMs_def eval_nat_numeral)

lemma tap_Locked_drift:
  assumes "metronomeRef s = Some m" "startTime m = Some st" "phase s = Locked"
    and "lockedAverage s = Some L" "MIN_TAPS_BEFORE_LOCK \<le> length (offsets s) + 1"
    and "STABILITY_THRESHOLD_MS < \<bar>calculateAverageOffset (offsets s @ [tapOffset st t]) - L\<bar>"
    and "confirmationTaps s + 1 < CONFIRMATION_BEATS"
  shows "act (Tap t) s =
     Some (s\<lparr>offsets := offsets s @ [tapOffset st t],
             lockedAverage := Some (calculateAverageOffset (offsets s @ [tapOffset st t])),
             confirmationTaps := 1, phase := Locked,
             previousAvgRef := Some (calculateAverageOffset (offsets s @ [tapOffset st t]))\<rparr>)"
  using assms(3-)
  by (simp add: act_def settle_4 handleTap_Locked [OF assms(1-3)] commit_defs calib_consts)

lemma tap_Locked_drift_done:
  assumes "metronomeRef s = Some m" "startTime m = Some st" "phase s = Locked"
    and "lockedAverage s = Some L" "MIN_TAPS_BEFORE_LOCK \<le> length (offsets s) + 1"
    and "STABILITY_THRESHOLD_MS < \<bar>calculateAverageOffset (offsets s @ [tapOffset st t]) - L\<bar>"
    and "CONFIRMATION_BEATS \<le> confirmationTaps s + 1"
  shows "act (Tap t) s =
     Some (s\<lparr>offsets := offsets s @ [tapOffset st t],
             lockedAverage := None, confirmationTaps := 0,
             metronomeRef := Some (stop m),
             detectedLatency := Some (Math_round L), phase := Done,
             previousAvgRef := Some (calculateAverageOffset (offsets s @ [tapOffset st t]))\<rparr>)"
  using assms(1,3-)
  by (simp add: act_def settle_4 handleTap_Locked [OF assms(1-3)] commit_defs calib_consts)

lemma acts_append:
  "acts (xs @ ys) s = (case acts xs s of None \<Rightarrow> None | Some s' \<Rightarrow> acts ys s')"
  by (induction xs arbitrary: s) (simp_all split: option.splits)

lemma confirm_run:
  assumes "metronomeRef s = Some m" "startTime m = Some st" "phase s = Locked"
    and "lockedAverage s = Some L"
    and "ts \<noteq> []" "confirmationTaps s + length ts = CONFIRMATION_BEATS"
    and "keepsAverage L (offsets s) (map (tapOffset st) ts)"
  shows "\<exists>s'. acts (map Tap ts) s = Some s' \<and> phase s' = Done
     \<and> detectedLatency s' = Some (Math_round L)
     \<and> offsets s' = offsets s @ map (tapOffset st) ts"
  using assms
proof (induction ts arbitrary: s)
  case Nil
  then show ?case by simp
next
  case (Cons t ts)
  have k1: "\<bar>calculateAverageOffset (offsets s @ [tapOffset st t]) - L\<bar> \<le> STABILITY_THRESHOLD_MS"
    and k2: "keepsAverage L (offsets s @ [tapOffset st t]) (map (tapOffset st) ts)"
    using Cons.prems(7) by simp_all
  show ?case
  proof (cases "ts = []")
    case True
    then have "CONFIRMATION_BEATS \<le> confirmationTaps s + 1"
      using Cons.prems(6) by simp
    from tap_Locked_done [OF Cons.prems(1-4) k1 this] True
    show ?thesis by simp
  next
    case False
    then have "confirmationTaps s + 1 < CONFIRMATION_BEATS"
      using Cons.prems(6) by (cases ts) simp_all
    note step = tap_Locked_keep [OF Cons.prems(1-4) k1 this]
    let ?s1 = "s\<lparr>offsets := offsets s @ [tapOffset st t],
             confirmationTaps := confirmationTaps s + 1\<rparr>"
    have "\<exists>s'. acts (map Tap ts) ?s1 = Some s' \<and> phase s' = Done
        \<and> detectedLatency s' = Some (Math_round L)
        \<and> offsets s' = offsets ?s1 @ map (tapOffset st) ts"
      using Cons.prems(1-4,6) False k2 by (intro Cons.IH) simp_all
    then show ?thesis
      using step by simp
  qed
qed

lemma acts_Done:
  assumes "phase s = Done"
  shows "acts (map Tap ts) s = Some s"
proof (induction ts)
  case Nil
  show ?case by simp
next
  case (Cons t ts)
  have "act (Tap t) s = Some s"
    by (rule tap_ignored) (simp_all add: assms)
  then show ?case using Cons.IH by simp
qed

lemma commit_stableLocked:
  assumes "stableLocked c"
  shows "commit p c = c"
  by (rule commit_Locked_keep [where L = "calculateAverageOffset (offsets c)"])
    (use assms in \<open>simp_all add: stableLocked_def calib_consts\<close>)

lemma progressEffect_Tapping_cases:
  assumes "phase c = Tapping"
  shows "rendered (progressEffect c c) = rendered c \<or> stableLocked (progressEffect c c)"
  using assms
  by (cases "previousAvgRef c")
    (simp_all add: progressEffect_def rendered_def stableLocked_def Let_def)

lemma commit_Tapping_cases:
  assumes "phase c = Tapping"
  shows "rendered (commit p c) = rendered c \<or> stableLocked (commit p c)"
proof -
  have ce: "confirmationEffect c s = s" for s
    by (rule confirmationEffect_idle) (simp add: assms)
  show ?thesis
    using progressEffect_Tapping_cases [OF assms] by (simp add: commit_def Let_def ce)
qed

lemma progressEffect_Locked_cases:
  assumes "phase c = Locked"
  shows "progressEffect c c = c
     \<or> progressEffect c c = c\<lparr>phase := Tapping, lockedAverage := None, confirmationTaps := 0,
          previousAvgRef := Some (calculateAverageOffset (offsets c))\<rparr>
        \<and> MIN_TAPS_BEFORE_LOCK \<le> length (offsets c)"
  using assms by (simp add: progressEffect_def Let_def)

lemma confirmationEffect_cases:
  "confirmationEffect r s = s \<or> phase (confirmationEffect r s) = Done"
  by (simp add: confirmationEffect_def)

lemma confirmationEffect_frame:
  "offsets (confirmationEffect r s) = offsets s
   \<and> previousAvgRef (confirmationEffect r s) = previousAvgRef s"
  by (simp add: confirmationEffect_def)

lemma commit_Locked_cases:
  assumes "phase c = Locked"
  shows "rendered (commit p c) = rendered c \<or> phase (commit p c) = Done
     \<or> phase (commit p c) = Tapping
        \<and> previousAvgRef (commit p c) = Some (calculateAverageOffset (offsets (commit p c)))
        \<and> MIN_TAPS_BEFORE_LOCK \<le> length (offsets (commit p c))"
proof -
  define s1 where "s1 = (if progressDeps c \<noteq> progressDeps p then progressEffect c c else c)"
  define s2 where "s2 = (if confirmationDeps c \<noteq> confirmationDeps p
      then confirmationEffect c s1 else s1)"
  have c: "commit p c = s2"
    by (simp add: commit_def Let_def s1_def s2_def)
  have s1: "s1 = c \<or> phase s1 = Tapping
        \<and> previousAvgRef s1 = Some (calculateAverageOffset (offsets s1))
        \<and> MIN_TAPS_BEFORE_LOCK \<le> length (offsets s1)"
    unfolding s1_def using progressEffect_Locked_cases [OF assms] by auto
  have s2: "s2 = s1 \<or> phase s2 = Done"
    unfolding s2_def using confirmationEffect_cases [of c s1] by auto
  show ?thesis
  proof (cases "s2 = s1")
    case True
    then show ?thesis using s1 c by auto
  next
    case False
    then show ?thesis using s2 c by auto
  qed
qed

lemma commit_relock:
  assumes "phase c = Tapping" "phase p = Locked"
    and "previousAvgRef c = Some (calculateAverageOffset (offsets c))"
    and "MIN_TAPS_BEFORE_LOCK \<le> length (offsets c)"
  shows "stableLocked (commit p c)"
proof -
  have d: "progressDeps c \<noteq> progressDeps p"
    using assms(1,2) by (auto simp: progressDeps_def)
  have ce: "confirmationEffect c s = s" for s
    by (rule confirmationEffect_idle) (simp add: assms)
  have "stableLocked (progressEffect c c)"
    using assms(1,3,4)
    by (simp add: progressEffect_def stableLocked_def Let_def calib_consts)
  then show ?thesis
    by (simp add: commit_def Let_def ce d)
qed

lemma settle_Suc:
  "settle (Suc n) prev cur =
     (if rendered (commit prev cur) = rendered cur then Some (commit prev cur)
      else settle n cur (commit prev cur))"
  by (simp add: Let_def)

lemma settle_total: "\<exists>s'. settle (Suc (Suc (Suc n))) prev cur = Some s'"
proof -
  let ?n1 = "commit prev cur"
  let ?n2 = "commit cur ?n1"
  have stable2: "\<exists>s'. settle (Suc k) a b = Some s'" if "stableLocked b" for k a b
    using commit_stableLocked [OF that, of a] by (simp add: settle_Suc del: settle.simps)
  have idle_ok: "\<exists>s'. settle (Suc k) a b = Some s'" if "phase b \<noteq> Tapping" "phase b \<noteq> Locked" for k a b
    using commit_idle [OF that, of a] by (simp add: settle_Suc del: settle.simps)
  consider (other) "phase cur \<noteq> Tapping" "phase cur \<noteq> Locked"
    | (tapping) "phase cur = Tapping" | (locked) "phase cur = Locked"
    by blast
  then show ?thesis
  proof cases
    case other
    then show ?thesis by (rule idle_ok)
  next
    case tapping
    from commit_Tapping_cases [OF tapping, of prev] show ?thesis
    proof
      assume "rendered ?n1 = rendered cur"
      then show ?thesis by (simp add: settle_Suc del: settle.simps)
    next
      assume "stableLocked ?n1"
      from stable2 [OF this, of "Suc n" cur] show ?thesis
        by (cases "rendered ?n1 = rendered cur")
          (simp_all add: settle_Suc del: settle.simps)
    qed
  next
    case locked
    from commit_Locked_cases [OF locked, of prev]
    consider (same) "rendered ?n1 = rendered cur" | (finished) "phase ?n1 = Done"
      | (revert) "phase ?n1 = Tapping"
          "previousAvgRef ?n1 = Some (calculateAverageOffset (offsets ?n1))"
          "MIN_TAPS_BEFORE_LOCK \<le> length (offsets ?n1)"
      by blast
    then show ?thesis
    proof cases
      case same
      then show ?thesis by (simp add: settle_Suc del: settle.simps)
    next
      case finished
      have "\<exists>s'. settle (Suc (Suc n)) cur ?n1 = Some s'"
        by (rule idle_ok) (simp_all add: finished)
      then show ?thesis
        by (cases "rendered ?n1 = rendered cur")
          (simp_all add: settle_Suc del: settle.simps)
    next
      case revert
      have "stableLocked ?n2"
        by (rule commit_relock [OF revert(1) locked revert(2,3)])
      from stable2 [OF this, of n ?n1]
      have "\<exists>s'. settle (Suc (Suc n)) cur ?n1 = Some s'"
        by (cases "rendered ?n2 = rendered ?n1")
          (simp_all add: settle_Suc del: settle.simps)
      then show ?thesis
        by (cases "rendered ?n1 = rendered cur")
          (simp_all add: settle_Suc del: settle.simps)
    qed
  qed
qed

lemma act_total: "\<exists>s'. act a s = Some s'"
  unfolding act_def settle_fuel_def
  using settle_total [of 1 s "handler a s"] by (simp add: eval_nat_numeral)

lemmas session_defs = freshTapping_def after8_def locked9_def taps8_def

lemmas tapOffset_defs = tapOffset_def calculateTimingOffset_def Math_round_def
  bpmToIntervalMs_def CALIBRATION_BPM_def Let_def

text \<open>
  C3 says that the eighth tap of the offsets 40, 42, 41, 43, 40, 44, 41, 42 locks the
  session. It does not: after the eight taps the session is still tapping, with no
  locked average and a confirmation count of 0; the eighth tap is the first to record
  a previous average.
\<close>

theorem calibration_eighth_tap_counterexample:
  "acts (map Tap taps8) freshTapping = Some after8
   \<and> offsets after8 = [40, 42, 41, 43, 40, 44, 41, 42]
   \<and> phase after8 = Tapping \<and> lockedAverage after8 = None \<and> confirmationTaps after8 = 0"
  by (simp add: eight_taps) (simp add: session_defs)

lemma after8_facts:
  "metronomeRef after8 = metronomeRef freshTapping" "phase after8 = Tapping"
  "previousAvgRef after8 = Some (333 / 8)" "length (offsets after8) = 8"
  "lockedAverage after8 = None" "confirmationTaps after8 = 0"
  by (simp_all add: session_defs)

lemma freshTapping_metronome:
  "\<exists>m. metronomeRef freshTapping = Some m \<and> startTime m = Some (8000 / 3)"
  by (simp add: freshTapping_def)

lemma keepsAverage_take: "keepsAverage L acc xs \<Longrightarrow> keepsAverage L acc (take k xs)"
proof (induction xs arbitrary: acc k)
  case Nil
  then show ?case by simp
next
  case (Cons x xs)
  then show ?case by (cases k) simp_all
qed

lemma confirm_prefix:
  assumes "metronomeRef s = Some m" "startTime m = Some st" "phase s = Locked"
    and "lockedAverage s = Some L"
    and "confirmationTaps s + length ts < CONFIRMATION_BEATS"
    and "keepsAverage L (offsets s) (map (tapOffset st) ts)"
  shows "acts (map Tap ts) s =
     Some (s\<lparr>offsets := offsets s @ map (tapOffset st) ts,
             confirmationTaps := confirmationTaps s + length ts\<rparr>)"
  using assms
proof (induction ts arbitrary: s)
  case Nil
  then show ?case by simp
next
  case (Cons t ts)
  have k1: "\<bar>calculateAverageOffset (offsets s @ [tapOffset st t]) - L\<bar> \<le> STABILITY_THRESHOLD_MS"
    and k2: "keepsAverage L (offsets s @ [tapOffset st t]) (map (tapOffset st) ts)"
    using Cons.prems(6) by simp_all
  have c: "confirmationTaps s + 1 < CONFIRMATION_BEATS"
    using Cons.prems(5) by simp
  note step = tap_Locked_keep [OF Cons.prems(1-4) k1 c]
  let ?s1 = "s\<lparr>offsets := offsets s @ [tapOffset st t],
             confirmationTaps := confirmationTaps s + 1\<rparr>"
  have "acts (map Tap ts) ?s1 =
     Some (?s1\<lparr>offsets := offsets ?s1 @ map (tapOffset st) ts,
             confirmationTaps := confirmationTaps ?s1 + length ts\<rparr>)"
    using Cons.prems(1-5) k2 by (intro Cons.IH) simp_all
  then show ?case
    using step by simp
qed

text \<open>
  C3, as the code has it. The eight taps leave the session tapping with the previous
  average set to their average, 41.625. Any ninth tap that keeps the average of the
  nine offsets within 2 ms of it locks the session, with the locked average set to
  that average and the confirmation count to 1; a ninth tap that moves the average by
  more than 2 ms leaves it tapping. From any locked session with count 1
  and locked average L, further taps that each keep the overall average within 2 ms of
  L leave the session locked with count k + 1 after k of them, for every k below 15,
  and the fifteenth ends it in done with the detected latency Math.round(L); a
  sixteenth tap is ignored, so the session is done after sixteen taps as well.
\<close>

theorem calibration_locks_on_ninth_tap:
  "acts (map Tap taps8) freshTapping = Some after8
   \<and> phase after8 = Tapping \<and> lockedAverage after8 = None
   \<and> previousAvgRef after8 = Some (calculateAverageOffset [40, 42, 41, 43, 40, 44, 41, 42])
   \<and> (\<bar>calculateAverageOffset (offsets after8 @ [tapOffset (8000 / 3) t]) - 333 / 8\<bar>
         \<le> STABILITY_THRESHOLD_MS \<longrightarrow>
        (\<exists>s9. act (Tap t) after8 = Some s9 \<and> phase s9 = Locked
           \<and> lockedAverage s9
               = Some (calculateAverageOffset (offsets after8 @ [tapOffset (8000 / 3) t]))
           \<and> confirmationTaps s9 = 1))
   \<and> (STABILITY_THRESHOLD_MS
         < \<bar>calculateAverageOffset (offsets after8 @ [tapOffset (8000 / 3) t]) - 333 / 8\<bar> \<longrightarrow>
        (\<exists>s9. act (Tap t) after8 = Some s9 \<and> phase s9 = Tapping
           \<and> lockedAverage s9 = None \<and> confirmationTaps s9 = 0))
   \<and> (metronomeRef s = Some m \<and> startTime m = Some st \<and> phase s = Locked
       \<and> lockedAverage s = Some L \<and> confirmationTaps s = 1 \<and> length ts = 15
       \<and> keepsAverage L (offsets s) (map (tapOffset st) ts) \<longrightarrow>
        (\<forall>k<15. \<exists>sk. acts (map Tap (take k ts)) s = Some sk \<and> phase sk = Locked
           \<and> confirmationTaps sk = Suc k \<and> lockedAverage sk = Some L
           \<and> detectedLatency sk = detectedLatency s)
        \<and> (\<exists>s'. acts (map Tap ts) s = Some s' \<and> phase s' = Done
           \<and> detectedLatency s' = Some (Math_round L)
           \<and> acts (map Tap (ts @ [t16])) s = Some s'))"
proof -
  have a: "previousAvgRef after8 = Some (calculateAverageOffset [40, 42, 41, 43, 40, 44, 41, 42])"
    by (simp add: session_defs calculateAverageOffset_def)
  have b: "\<exists>s9. act (Tap t) after8 = Some s9 \<and> phase s9 = Locked
           \<and> lockedAverage s9
               = Some (calculateAverageOffset (offsets after8 @ [tapOffset (8000 / 3) t]))
           \<and> confirmationTaps s9 = 1"
    if h: "\<bar>calculateAverageOffset (offsets after8 @ [tapOffset (8000 / 3) t]) - 333 / 8\<bar>
         \<le> STABILITY_THRESHOLD_MS"
  proof -
    obtain m0 where m0: "metronomeRef after8 = Some m0" "startTime m0 = Some (8000 / 3)"
      using freshTapping_metronome after8_facts(1) by auto
    have "MIN_TAPS_BEFORE_LOCK \<le> length (offsets after8) + 1"
      by (simp add: after8_facts MIN_TAPS_BEFORE_LOCK_def)
    from tap_Tapping_lock [OF m0 after8_facts(2) this after8_facts(3) h]
    show ?thesis by simp
  qed
  have b': "\<exists>s9. act (Tap t) after8 = Some s9 \<and> phase s9 = Tapping
           \<and> lockedAverage s9 = None \<and> confirmationTaps s9 = 0"
    if h: "STABILITY_THRESHOLD_MS
         < \<bar>calculateAverageOffset (offsets after8 @ [tapOffset (8000 / 3) t]) - 333 / 8\<bar>"
  proof -
    obtain m0 where m0: "metronomeRef after8 = Some m0" "startTime m0 = Some (8000 / 3)"
      using freshTapping_metronome after8_facts(1) by auto
    have l: "MIN_TAPS_BEFORE_LOCK \<le> length (offsets after8) + 1"
      by (simp add: after8_facts MIN_TAPS_BEFORE_LOCK_def)
    have n: "\<not> \<bar>calculateAverageOffset (offsets after8 @ [tapOffset (8000 / 3) t]) - 333 / 8\<bar>
        \<le> STABILITY_THRESHOLD_MS"
      using h by simp
    from tap_Tapping_unstable [OF m0 after8_facts(2) l after8_facts(3) n]
    show ?thesis by (simp add: after8_facts)
  qed
  have c: "(\<forall>k<15. \<exists>sk. acts (map Tap (take k ts)) s = Some sk \<and> phase sk = Locked
           \<and> confirmationTaps sk = Suc k \<and> lockedAverage sk = Some L
           \<and> detectedLatency sk = detectedLatency s)
        \<and> (\<exists>s'. acts (map Tap ts) s = Some s' \<and> phase s' = Done
           \<and> detectedLatency s' = Some (Math_round L)
           \<and> acts (map Tap (ts @ [t16])) s = Some s')"
    if h: "metronomeRef s = Some m" "startTime m = Some st" "phase s = Locked"
       "lockedAverage s = Some L" "confirmationTaps s = 1" "length ts = 15"
       "keepsAverage L (offsets s) (map (tapOffset st) ts)"
  proof
    show "\<forall>k<15. \<exists>sk. acts (map Tap (take k ts)) s = Some sk \<and> phase sk = Locked
           \<and> confirmationTaps sk = Suc k \<and> lockedAverage sk = Some L
           \<and> detectedLatency sk = detectedLatency s"
    proof (intro allI impI)
      fix k :: nat
      assume k: "k < 15"
      have l: "confirmationTaps s + length (take k ts) < CONFIRMATION_BEATS"
        using k h(5,6) by (simp add: CONFIRMATION_BEATS_def)
      have "keepsAverage L (offsets s) (take k (map (tapOffset st) ts))"
        using h(7) by (rule keepsAverage_take)
      then have ka: "keepsAverage L (offsets s) (map (tapOffset st) (take k ts))"
        by (simp add: take_map)
      from confirm_prefix [OF h(1-4) l ka] k h(3-6)
      show "\<exists>sk. acts (map Tap (take k ts)) s = Some sk \<and> phase sk = Locked
           \<and> confirmationTaps sk = Suc k \<and> lockedAverage sk = Some L
           \<and> detectedLatency sk = detectedLatency s"
        by simp
    qed
  next
    have ne: "ts \<noteq> []" using h(6) by auto
    have n: "confirmationTaps s + length ts = CONFIRMATION_BEATS"
      using h(5,6) by (simp add: CONFIRMATION_BEATS_def)
    from confirm_run [OF h(1-4) ne n h(7)]
    obtain s' where s': "acts (map Tap ts) s = Some s'" "phase s' = Done"
      "detectedLatency s' = Some (Math_round L)"
      by blast
    have "acts (map Tap (ts @ [t16])) s = Some s'"
      using s'(1) acts_Done [OF s'(2), of "[t16]"] by (simp add: acts_append)
    with s' show "\<exists>s'. acts (map Tap ts) s = Some s' \<and> phase s' = Done
           \<and> detectedLatency s' = Some (Math_round L)
           \<and> acts (map Tap (ts @ [t16])) s = Some s'"
      by blast
  qed
  show ?thesis
    using eight_taps after8_facts(2,5) a b b' c by blast
qed

theorem calibration_locks_on_ninth_tap_witness:
  "\<bar>calculateAverageOffset (offsets after8 @ [tapOffset (8000 / 3) (26000 / 3 + 41)]) - 333 / 8\<bar>
      \<le> STABILITY_THRESHOLD_MS
   \<and> act (Tap (26000 / 3 + 41)) after8 = Some locked9
   \<and> phase locked9 = Locked \<and> lockedAverage locked9 = Some (374 / 9)
   \<and> confirmationTaps locked9 = 1 \<and> length confirmTaps = 15
   \<and> keepsAverage (374 / 9) (offsets locked9) (map (tapOffset (8000 / 3)) confirmTaps)
   \<and> STABILITY_THRESHOLD_MS
       < \<bar>calculateAverageOffset (offsets after8 @ [tapOffset (8000 / 3) (26000 / 3 + 300)])
          - 333 / 8\<bar>
   \<and> (\<exists>s9. act (Tap (26000 / 3 + 300)) after8 = Some s9 \<and> phase s9 = Tapping)
   \<and> (14::nat) < 15
   \<and> (\<exists>sk. acts (map Tap (take 14 confirmTaps)) locked9 = Some sk \<and> phase sk = Locked
         \<and> confirmationTaps sk = 15)
   \<and> (\<exists>s'. acts (map Tap confirmTaps) locked9 = Some s' \<and> phase s' = Done
         \<and> detectedLatency s' = Some 42
         \<and> acts (map Tap (confirmTaps @ [58000 / 3 + 42])) locked9 = Some s')"
proof -
  have off: "tapOffset (8000 / 3) (26000 / 3 + 41) = 41"
    by (simp add: tapOffset_defs)
  have offs: "map (tapOffset (8000 / 3)) confirmTaps = replicate 15 42"
    by (simp add: confirmTaps_def tapOffset_defs eval_nat_numeral)
  have h1: "\<bar>calculateAverageOffset (offsets after8 @ [tapOffset (8000 / 3) (26000 / 3 + 41)])
      - 333 / 8\<bar> \<le> STABILITY_THRESHOLD_MS"
    using off by (simp add: session_defs calculateAverageOffset_def STABILITY_THRESHOLD_MS_def)
  define m9 where "m9 = \<lparr>isPlaying = True, bpm = 90, startTime = Some (8000 / 3),
        currentBeat = 0, isCountingIn = False, countInBeatsRemaining = 0, tickInterval = True,
        nextScheduledBeat = 1, countInBeats = 4, audioLatencyMs = 0\<rparr>"
  have h2: "metronomeRef locked9 = Some m9" "startTime m9 = Some (8000 / 3)"
    and h3: "phase locked9 = Locked" "lockedAverage locked9 = Some (374 / 9)"
      "confirmationTaps locked9 = 1"
    by (simp_all add: session_defs m9_def)
  have h4: "length confirmTaps = 15"
    by (simp add: confirmTaps_def)
  have h5: "keepsAverage (374 / 9) (offsets locked9) (map (tapOffset (8000 / 3)) confirmTaps)"
    by (simp add: offs session_defs calculateAverageOffset_def STABILITY_THRESHOLD_MS_def
        eval_nat_numeral)
  have r: "Math_round (374 / 9) = 42"
    by (simp add: Math_round_def)
  have k: "(14::nat) < 15"
    by simp
  note T = calibration_locks_on_ninth_tap [of "26000 / 3 + 41" locked9 m9 "8000 / 3" "374 / 9"
      confirmTaps "58000 / 3 + 42"]
  from T h2 h3 h4 h5
  have all: "\<forall>k<15. \<exists>sk. acts (map Tap (take k confirmTaps)) locked9 = Some sk
        \<and> phase sk = Locked \<and> confirmationTaps sk = Suc k \<and> lockedAverage sk = Some (374 / 9)
        \<and> detectedLatency sk = detectedLatency locked9"
    and fin: "\<exists>s'. acts (map Tap confirmTaps) locked9 = Some s' \<and> phase s' = Done
        \<and> detectedLatency s' = Some (Math_round (374 / 9))
        \<and> acts (map Tap (confirmTaps @ [58000 / 3 + 42])) locked9 = Some s'"
    by blast+
  from all k obtain sk where sk: "acts (map Tap (take 14 confirmTaps)) locked9 = Some sk"
    "phase sk = Locked" "confirmationTaps sk = Suc 14"
    by blast
  from sk(3) have "confirmationTaps sk = 15"
    by simp
  with sk(1,2) have e1: "\<exists>sk. acts (map Tap (take 14 confirmTaps)) locked9 = Some sk
        \<and> phase sk = Locked \<and> confirmationTaps sk = 15"
    by blast
  from fin have e2: "\<exists>s'. acts (map Tap confirmTaps) locked9 = Some s' \<and> phase s' = Done
         \<and> detectedLatency s' = Some 42
         \<and> acts (map Tap (confirmTaps @ [58000 / 3 + 42])) locked9 = Some s'"
    by (simp add: r)
  have off': "tapOffset (8000 / 3) (26000 / 3 + 300) = 300"
    by (simp add: tapOffset_defs)
  have u1: "STABILITY_THRESHOLD_MS
       < \<bar>calculateAverageOffset (offsets after8 @ [tapOffset (8000 / 3) (26000 / 3 + 300)])
          - 333 / 8\<bar>"
    using off' by (simp add: session_defs calculateAverageOffset_def STABILITY_THRESHOLD_MS_def)
  from calibration_locks_on_ninth_tap [of "26000 / 3 + 300"] u1
  have u2: "\<exists>s9. act (Tap (26000 / 3 + 300)) after8 = Some s9 \<and> phase s9 = Tapping"
    by blast
  show ?thesis
    by (intro conjI) (fact h1 ninth_tap h3 h4 h5 u1 u2 k e1 e2)+
qed

text \<open>
  C6 at a concrete input. The session locked by the ninth tap (locked average 374/9,
  count 1) receives a tap 100 ms late. The overall average moves to 47.4, more than
  2 ms from the locked average, and the commit after the tap reverts the session to
  tapping, with the locked average cleared, the count 0, the previous average 47.4 and
  the history kept. That render changes phase and lockedAverage, so the progress effect
  runs again, finds the previous average equal to the current one and locks again: the
  tap leaves the session locked at 47.4 with count 1.
\<close>

theorem locked_drift_relocks:
  "acts (map Tap (taps8 @ [26000 / 3 + 41])) freshTapping = Some locked9
   \<and> phase locked9 = Locked \<and> lockedAverage locked9 = Some (374 / 9)
   \<and> confirmationTaps locked9 = 1
   \<and> handleTap (28000 / 3 + 100) locked9
       = locked9\<lparr>offsets := offsets locked9 @ [100], confirmationTaps := 2\<rparr>
   \<and> STABILITY_THRESHOLD_MS < \<bar>calculateAverageOffset (offsets locked9 @ [100]) - 374 / 9\<bar>
   \<and> commit locked9 (handleTap (28000 / 3 + 100) locked9) = reverted10
   \<and> phase reverted10 = Tapping
   \<and> commit (handleTap (28000 / 3 + 100) locked9) reverted10 = relocked10
   \<and> act (Tap (28000 / 3 + 100)) locked9 = Some relocked10
   \<and> phase relocked10 = Locked \<and> lockedAverage relocked10 = Some (237 / 5)
   \<and> confirmationTaps relocked10 = 1"
proof -
  have a: "acts (map Tap (taps8 @ [26000 / 3 + 41])) freshTapping = Some locked9"
    using ninth_tap by (simp add: acts_append eight_taps)
  have off: "tapOffset (8000 / 3) (28000 / 3 + 100) = 100"
    by (simp add: tapOffset_defs)
  have h: "handleTap (28000 / 3 + 100) locked9
       = locked9\<lparr>offsets := offsets locked9 @ [100], confirmationTaps := 2\<rparr>"
    using off handleTap_Locked [of locked9 _ "8000 / 3" "28000 / 3 + 100"]
    by (simp add: session_defs)
  have d: "STABILITY_THRESHOLD_MS < \<bar>calculateAverageOffset (offsets locked9 @ [100]) - 374 / 9\<bar>"
    by (simp add: session_defs calculateAverageOffset_def STABILITY_THRESHOLD_MS_def)
  have c1: "commit locked9 (handleTap (28000 / 3 + 100) locked9) = reverted10"
    unfolding h
    by (simp add: reverted10_def session_defs commit_defs calib_consts calculateAverageOffset_def)
  have c2: "commit (handleTap (28000 / 3 + 100) locked9) reverted10 = relocked10"
    unfolding h
    by (simp add: reverted10_def relocked10_def session_defs commit_defs calib_consts
        calculateAverageOffset_def)
  have t: "act (Tap (28000 / 3 + 100)) locked9 = Some relocked10"
    using drift_tap by (simp add: relocked10_def session_defs)
  show ?thesis
    using a h d c1 c2 t by (simp add: reverted10_def relocked10_def session_defs)
qed

end
